theory Spec2Isabelle
  imports Main "HOL-Library.Word" "HOL-Library.Sublist"
begin

section \<open>The hash map of \<^verbatim>\<open>osi/src/hash_map.c\<close>\<close>

text \<open>
  A shallow embedding of \<^verbatim>\<open>src/osi/src/hash_map.c\<close>: a hash map with separate chaining,
  a fixed array of buckets, one lazily created chain (a \<^verbatim>\<open>list_t\<close>) per bucket, and a
  counter \<^verbatim>\<open>hash_size\<close> of the live entries.

  Conventions of the embedding.
  \<^item> A key (\<^verbatim>\<open>const void *\<close>) is a value of an arbitrary type \<open>'k\<close>: the map never
    dereferences a key and never tests it against \<^verbatim>\<open>NULL\<close>.
  \<^item> A data reference (\<^verbatim>\<open>void *\<close>) is a \<open>'d option\<close>, \<open>None\<close> being \<^verbatim>\<open>NULL\<close>.
  \<^item> \<^verbatim>\<open>size_t hash_size\<close> is a machine word of an arbitrary width \<open>'w\<close>; \<open>+\<close> and \<open>-\<close>
    wrap as in C. Bucket counts and bucket indices (\<^verbatim>\<open>size_t num_bucket\<close>,
    \<^verbatim>\<open>hash_index_t\<close>, declared in a header that is not part of the sources) are natural
    numbers: the only arithmetic on them is \<^verbatim>\<open>hash_fn(key) % num_bucket\<close> and the loop
    counter that runs up to \<^verbatim>\<open>num_bucket\<close>, which is taken to be in the range of
    \<^verbatim>\<open>hash_index_t\<close>.
  \<^item> Everything the code does to its environment is threaded through a \<open>world\<close>: the
    allocator, and the log of the calls of the cleanup hooks \<^verbatim>\<open>key_fn\<close> and \<^verbatim>\<open>data_fn\<close>.
  \<^item> A failed \<^verbatim>\<open>assert\<close> is the error value \<open>Assertion_failed\<close>.
\<close>

subsection \<open>The environment: allocator and cleanup hooks\<close>

text \<open>
  A call of a cleanup hook, with its argument. The world is the state outside the map:
  the outcomes of the allocation requests still to come (\<open>alloc_plan\<close>, \<open>True\<close> for memory
  and \<open>False\<close> for \<^verbatim>\<open>NULL\<close>), the number of releases so far (\<open>free_calls\<close>), and the calls
  of the cleanup hooks so far, oldest first (\<open>hook_calls\<close>).
\<close>

datatype ('k, 'd) hook_call = Key_fn 'k | Data_fn "'d option"

record ('k, 'd) world =
  alloc_plan :: "bool list"
  free_calls :: nat
  hook_calls :: "('k, 'd) hook_call list"

text \<open>
  Modelled from the spec: \<^verbatim>\<open>allocator->alloc\<close> of the allocator abstraction (\<^verbatim>\<open>allocator.h\<close>
  and its implementation are not part of the sources), \<^verbatim>\<open>allocate(size) -> memory-or-failure\<close>.
  Whether a request succeeds is not decided by the map: the request takes the next
  outcome of the plan, and fails once the plan is used up. The first result is whether
  memory was returned.
\<close>

definition allocator_alloc :: "('k, 'd) world \<Rightarrow> bool \<times> ('k, 'd) world" where
  "allocator_alloc w =
     (case alloc_plan w of
        [] \<Rightarrow> (False, w)
      | ok # rest \<Rightarrow> (ok, w\<lparr>alloc_plan := rest\<rparr>))"

text \<open>
  Modelled from the spec: \<^verbatim>\<open>allocator->free\<close> of the allocator abstraction (not part of
  the sources), \<^verbatim>\<open>release(pointer)\<close>. A release is counted.
\<close>

definition allocator_free :: "('k, 'd) world \<Rightarrow> ('k, 'd) world" where
  "allocator_free w = w\<lparr>free_calls := Suc (free_calls w)\<rparr>"

subsection \<open>The data\<close>

text \<open>
  \<^verbatim>\<open>hash_map_t\<close> (lines 31-40) is split in two records. \<open>hash_map_header\<close> holds the fields
  that \<^verbatim>\<open>hash_map_new_internal\<close> writes and nothing writes again; \<open>hash_map_t\<close> extends it
  with the bucket array and the counter. An entry (\<^verbatim>\<open>hash_map_entry_t\<close>, declared in
  \<^verbatim>\<open>hash_map.h\<close>, with the three fields that lines 175-177 fill) holds a pointer back to
  its map. The code reads through that pointer \<^verbatim>\<open>keys_are_equal\<close>, \<^verbatim>\<open>key_fn\<close>, \<^verbatim>\<open>data_fn\<close> and
  \<^verbatim>\<open>allocator\<close> only, none of which changes after construction, so the entry of the model
  carries the header of the map that created it.

  A cleanup hook is a function pointer of the caller, \<^verbatim>\<open>NULL\<close> when no cleanup is wanted:
  \<open>key_fn\<close> and \<open>data_fn\<close> say whether the hook is there, and a call of the hook is an entry
  of \<open>hook_calls\<close>. The field \<^verbatim>\<open>allocator\<close> is the allocator of the world.
  A bucket (\<^verbatim>\<open>hash_map_bucket_t\<close>, one pointer \<^verbatim>\<open>list\<close>) is an optional chain.
\<close>

record 'k hash_map_header =
  num_bucket :: nat
  hash_fn :: "'k \<Rightarrow> nat"
  key_fn :: bool
  data_fn :: bool
  keys_are_equal :: "'k \<Rightarrow> 'k \<Rightarrow> bool"

record ('k, 'd) hash_map_entry_t =
  key :: 'k
  data :: "'d option"
  hash_map :: "'k hash_map_header"

type_synonym ('k, 'd) list_t = "('k, 'd) hash_map_entry_t list"

record (overloaded) ('k, 'd, 'w) hash_map_t = "'k hash_map_header" +
  bucket :: "('k, 'd) list_t option list"
  hash_size :: "'w word"

datatype abort = Assertion_failed

subsection \<open>The chained-list primitive\<close>

text \<open>
  The list primitive (\<^verbatim>\<open>list.h\<close> and its implementation) is not part of the sources. Its
  operations are modelled from the contract the specification gives for it. A list is
  the sequence of its elements, head first; the list header and every node are one
  allocation each. The C list keeps the free-callback it was created with; every chain
  of a map is created with \<^verbatim>\<open>bucket_free_\<close> (line 156), and the model passes the callback
  to the operations that use it. The iteration \<^verbatim>\<open>list_begin\<close>, \<^verbatim>\<open>list_next\<close>, \<^verbatim>\<open>list_end\<close>,
  \<^verbatim>\<open>list_node\<close> (forward, with an end marker) is recursion over the sequence.
\<close>

text \<open>
  Modelled from the spec: \<^verbatim>\<open>list_new_internal\<close>, \<^verbatim>\<open>new(free_callback, allocator) -> list\<close>;
  an empty list, or \<^verbatim>\<open>NULL\<close> when its allocation fails.
\<close>

definition list_new_internal :: "('k, 'd) world \<Rightarrow> ('k, 'd) world \<times> 'a list option" where
  "list_new_internal w =
     (let (ok, w1) = allocator_alloc w
      in if ok then (w1, Some []) else (w1, None))"

text \<open>
  Modelled from the spec: \<^verbatim>\<open>list_append\<close>, \<^verbatim>\<open>append(list, element) -> success/failure\<close>;
  the element becomes the last one, or the list is unchanged when the allocation of the
  node fails.
\<close>

definition list_append ::
  "('k, 'd) world \<Rightarrow> 'a list \<Rightarrow> 'a \<Rightarrow> ('k, 'd) world \<times> 'a list \<times> bool" where
  "list_append w l x =
     (let (ok, w1) = allocator_alloc w
      in if ok then (w1, l @ [x], True) else (w1, l, False))"

text \<open>
  Modelled from the spec: the destruction of one node of a list, "via the free-callback":
  the callback runs on the element, then the node is released.
\<close>

definition list_free_node ::
  "('a \<Rightarrow> ('k, 'd) world \<Rightarrow> ('k, 'd) world) \<Rightarrow> 'a \<Rightarrow> ('k, 'd) world \<Rightarrow> ('k, 'd) world" where
  "list_free_node free_cb x w = allocator_free (free_cb x w)"

text \<open>
  Modelled from the spec: \<^verbatim>\<open>list_remove\<close>, \<^verbatim>\<open>remove(list, element) -> success/failure\<close>. The
  first node that holds the element is taken out and destroyed, which runs the
  free-callback on the element (the comment at line 165 of \<^verbatim>\<open>hash_map.c\<close>:
  \<^verbatim>\<open>Calls hash_map callback to delete the hash_map_entry\<close>); false when no node holds it. The C
  list compares element pointers. The map only removes an entry that
  \<^verbatim>\<open>find_bucket_entry_\<close> has just returned, the first one of the chain that matches the
  key, so the first node equal to it is that node.
\<close>

definition list_remove ::
  "('a \<Rightarrow> ('k, 'd) world \<Rightarrow> ('k, 'd) world) \<Rightarrow> ('k, 'd) world \<Rightarrow> 'a list \<Rightarrow> 'a
     \<Rightarrow> ('k, 'd) world \<times> 'a list \<times> bool" where
  "list_remove free_cb w l x =
     (if x \<in> set l then (list_free_node free_cb x w, remove1 x l, True)
      else (w, l, False))"

text \<open>
  Modelled from the spec: \<^verbatim>\<open>list_free\<close>, \<^verbatim>\<open>free(list)\<close>, which "destroys all elements via
  the free-callback, then the list itself".
\<close>

definition list_free ::
  "('a \<Rightarrow> ('k, 'd) world \<Rightarrow> ('k, 'd) world) \<Rightarrow> ('k, 'd) world \<Rightarrow> 'a list \<Rightarrow> ('k, 'd) world" where
  "list_free free_cb w l = allocator_free (fold (list_free_node free_cb) l w)"

subsection \<open>The static helpers of \<^verbatim>\<open>hash_map.c\<close>\<close>

definition call_hook :: "('k, 'd) hook_call \<Rightarrow> ('k, 'd) world \<Rightarrow> ('k, 'd) world" where
  "call_hook c w = w\<lparr>hook_calls := hook_calls w @ [c]\<rparr>"

text \<open>
  \<^verbatim>\<open>bucket_free_\<close> (lines 252-262): the cleanup of one entry. (An Isabelle name cannot end
  in an underscore: \<open>bucket_free\<close> is \<^verbatim>\<open>bucket_free_\<close> and \<open>find_bucket_entry\<close> is
  \<^verbatim>\<open>find_bucket_entry_\<close>.)
\<close>

definition bucket_free :: "('k, 'd) hash_map_entry_t \<Rightarrow> ('k, 'd) world \<Rightarrow> ('k, 'd) world" where
  "bucket_free hash_map_entry w =
     (let w1 = (if key_fn (hash_map hash_map_entry)
                then call_hook (Key_fn (key hash_map_entry)) w else w);
          w2 = (if data_fn (hash_map hash_map_entry)
                then call_hook (Data_fn (data hash_map_entry)) w1 else w1)
      in allocator_free w2)"

text \<open>
  \<^verbatim>\<open>find_bucket_entry_\<close> (lines 264-279): \<open>find_bucket_entry_loop\<close> is its \<^verbatim>\<open>for\<close> loop over
  the nodes of the chain, \<open>None\<close> is \<^verbatim>\<open>NULL\<close>.
\<close>

fun find_bucket_entry_loop ::
  "('k, 'd) list_t \<Rightarrow> 'k \<Rightarrow> ('k, 'd) hash_map_entry_t option" where
  "find_bucket_entry_loop [] k = None"
| "find_bucket_entry_loop (hash_map_entry # rest) k =
     (if keys_are_equal (hash_map hash_map_entry) (key hash_map_entry) k
      then Some hash_map_entry
      else find_bucket_entry_loop rest k)"

definition find_bucket_entry ::
  "('k, 'd) list_t option \<Rightarrow> 'k \<Rightarrow> ('k, 'd) hash_map_entry_t option" where
  "find_bucket_entry hash_bucket_list k =
     (case hash_bucket_list of
        None \<Rightarrow> None
      | Some l \<Rightarrow> find_bucket_entry_loop l k)"

definition default_key_equality :: "'k \<Rightarrow> 'k \<Rightarrow> bool" where
  "default_key_equality x y = (x = y)"

subsection \<open>Construction and the read-only operations\<close>

text \<open>
  \<^verbatim>\<open>hash_map_new_internal\<close> (lines 52-80). \<open>None\<close> for \<open>hash_fn\<close> or \<open>equality_fn\<close> is a
  \<^verbatim>\<open>NULL\<close> function pointer. The allocator zeroes what it hands out, so the counter starts
  at \<open>0\<close> and every bucket at \<^verbatim>\<open>NULL\<close>. The result \<open>None\<close> is the \<^verbatim>\<open>NULL\<close> map.
\<close>

definition hash_map_new_internal ::
  "('k, 'd) world \<Rightarrow> nat \<Rightarrow> ('k \<Rightarrow> nat) option \<Rightarrow> bool \<Rightarrow> bool \<Rightarrow> ('k \<Rightarrow> 'k \<Rightarrow> bool) option
     \<Rightarrow> abort + (('k, 'd) world \<times> ('k, 'd, 'w::len) hash_map_t option)" where
  "hash_map_new_internal w nb hf kf df equality_fn =
     (case hf of
        None \<Rightarrow> Inl Assertion_failed
      | Some h \<Rightarrow>
          if \<not> 0 < nb then Inl Assertion_failed
          else
            let (ok1, w1) = allocator_alloc w in
            if \<not> ok1 then Inr (w1, None)
            else
              let (ok2, w2) = allocator_alloc w1 in
              if \<not> ok2 then Inr (allocator_free w2, None)
              else Inr (w2, Some
                \<lparr>num_bucket = nb, hash_fn = h, key_fn = kf, data_fn = df,
                 keys_are_equal =
                   (case equality_fn of None \<Rightarrow> default_key_equality | Some f \<Rightarrow> f),
                 bucket = replicate nb None, hash_size = 0\<rparr>))"

text \<open>\<^verbatim>\<open>hash_map_new\<close> (lines 91-98) is the same with the default allocator.\<close>

definition hash_map_new ::
  "('k, 'd) world \<Rightarrow> nat \<Rightarrow> ('k \<Rightarrow> nat) option \<Rightarrow> bool \<Rightarrow> bool \<Rightarrow> ('k \<Rightarrow> 'k \<Rightarrow> bool) option
     \<Rightarrow> abort + (('k, 'd) world \<times> ('k, 'd, 'w::len) hash_map_t option)" where
  "hash_map_new w nb hf kf df equality_fn = hash_map_new_internal w nb hf kf df equality_fn"

definition hash_map_is_empty :: "('k, 'd, 'w::len) hash_map_t \<Rightarrow> bool" where
  "hash_map_is_empty m = (hash_size m = 0)"

definition hash_map_size :: "('k, 'd, 'w::len) hash_map_t \<Rightarrow> 'w word" where
  "hash_map_size m = hash_size m"

definition hash_map_num_buckets :: "('k, 'd, 'w::len) hash_map_t \<Rightarrow> nat" where
  "hash_map_num_buckets m = num_bucket m"

text \<open>\<^verbatim>\<open>hash_map_has_key\<close> (lines 134-142) and \<^verbatim>\<open>hash_map_get\<close> (lines 204-215).\<close>

definition hash_map_has_key :: "('k, 'd, 'w::len) hash_map_t \<Rightarrow> 'k \<Rightarrow> bool" where
  "hash_map_has_key m k =
     (let hash_key = hash_fn m k mod num_bucket m;
          hash_bucket_list = bucket m ! hash_key;
          hash_map_entry = find_bucket_entry hash_bucket_list k
      in hash_map_entry \<noteq> None)"

definition hash_map_get :: "('k, 'd, 'w::len) hash_map_t \<Rightarrow> 'k \<Rightarrow> 'd option" where
  "hash_map_get m k =
     (let hash_key = hash_fn m k mod num_bucket m;
          hash_bucket_list = bucket m ! hash_key
      in case find_bucket_entry hash_bucket_list k of
           Some hash_map_entry \<Rightarrow> data hash_map_entry
         | None \<Rightarrow> None)"

subsection \<open>The operations that change the map\<close>

text \<open>
  \<^verbatim>\<open>hash_map_set\<close> (lines 149-180). A chain is changed in place through the pointer in the
  bucket; the model writes the changed chain back into the bucket array. The entry's
  back-reference is the header of \<open>m\<close> (\<open>hash_map_header.truncate m\<close>).
  \<open>hash_map_set_entry\<close> is lines 171-179: allocate the entry record, fill it, append it.
\<close>

definition hash_map_set_entry ::
  "('k, 'd) world \<Rightarrow> ('k, 'd, 'w::len) hash_map_t \<Rightarrow> nat \<Rightarrow> ('k, 'd) list_t \<Rightarrow> 'k \<Rightarrow> 'd option
     \<Rightarrow> ('k, 'd) world \<times> ('k, 'd, 'w) hash_map_t \<times> bool" where
  "hash_map_set_entry w m hash_key hash_bucket_list k d =
     (let (ok, w1) = allocator_alloc w in
      if \<not> ok then (w1, m\<lparr>bucket := (bucket m)[hash_key := Some hash_bucket_list]\<rparr>, False)
      else
        let hash_map_entry = \<lparr>key = k, data = d, hash_map = hash_map_header.truncate m\<rparr>;
            (w2, l2, rc) = list_append w1 hash_bucket_list hash_map_entry
        in (w2, m\<lparr>bucket := (bucket m)[hash_key := Some l2]\<rparr>, rc))"

definition hash_map_set ::
  "('k, 'd) world \<Rightarrow> ('k, 'd, 'w::len) hash_map_t \<Rightarrow> 'k \<Rightarrow> 'd option
     \<Rightarrow> abort + (('k, 'd) world \<times> ('k, 'd, 'w) hash_map_t \<times> bool)" where
  "hash_map_set w m k d =
     (if d = None then Inl Assertion_failed
      else
        let hash_key = hash_fn m k mod num_bucket m;
            (w1, m1) =
              (if bucket m ! hash_key = None
               then (let (w', l) = list_new_internal w
                     in (w', m\<lparr>bucket := (bucket m)[hash_key := l]\<rparr>))
               else (w, m))
        in case bucket m1 ! hash_key of
             None \<Rightarrow> Inr (w1, m1, False)
           | Some hash_bucket_list \<Rightarrow>
               (case find_bucket_entry (Some hash_bucket_list) k of
                  Some hash_map_entry \<Rightarrow>
                    (let (w2, l2, rc) = list_remove bucket_free w1 hash_bucket_list hash_map_entry
                     in if \<not> rc then Inl Assertion_failed
                        else Inr (hash_map_set_entry w2 m1 hash_key l2 k d))
                | None \<Rightarrow>
                    Inr (hash_map_set_entry w1 (m1\<lparr>hash_size := hash_size m1 + 1\<rparr>)
                           hash_key hash_bucket_list k d)))"

text \<open>
  \<^verbatim>\<open>hash_map_erase\<close> (lines 186-200). \<^verbatim>\<open>find_bucket_entry_\<close> returns \<^verbatim>\<open>NULL\<close> for a \<^verbatim>\<open>NULL\<close>
  chain, so the chain is there when an entry was found; the branch for a \<^verbatim>\<open>NULL\<close> chain
  with an entry is never taken.
\<close>

definition hash_map_erase ::
  "('k, 'd) world \<Rightarrow> ('k, 'd, 'w::len) hash_map_t \<Rightarrow> 'k
     \<Rightarrow> ('k, 'd) world \<times> ('k, 'd, 'w) hash_map_t \<times> bool" where
  "hash_map_erase w m k =
     (let hash_key = hash_fn m k mod num_bucket m;
          hash_bucket_list = bucket m ! hash_key
      in case find_bucket_entry hash_bucket_list k of
           None \<Rightarrow> (w, m, False)
         | Some hash_map_entry \<Rightarrow>
             (let m1 = m\<lparr>hash_size := hash_size m - 1\<rparr>
              in case hash_bucket_list of
                   None \<Rightarrow> (w, m1, False)
                 | Some l \<Rightarrow>
                     (let (w1, l1, rc) = list_remove bucket_free w l hash_map_entry
                      in (w1, m1\<lparr>bucket := (bucket m1)[hash_key := Some l1]\<rparr>, rc))))"

text \<open>
  \<^verbatim>\<open>hash_map_clear\<close> (lines 219-228): \<open>hash_map_clear_loop i\<close> is the \<^verbatim>\<open>for\<close> loop from
  index \<open>i\<close> on.
\<close>

function hash_map_clear_loop ::
  "nat \<Rightarrow> ('k, 'd) world \<Rightarrow> ('k, 'd, 'w::len) hash_map_t
     \<Rightarrow> ('k, 'd) world \<times> ('k, 'd, 'w) hash_map_t" where
  "hash_map_clear_loop i w m =
     (if i < num_bucket m
      then (case bucket m ! i of
              None \<Rightarrow> hash_map_clear_loop (i + 1) w m
            | Some l \<Rightarrow>
                hash_map_clear_loop (i + 1) (list_free bucket_free w l)
                  (m\<lparr>bucket := (bucket m)[i := None]\<rparr>))
      else (w, m))"
  by pat_completeness auto
termination
  by (relation "measure (\<lambda>(i, w, m). num_bucket m - i)") auto

declare hash_map_clear_loop.simps [simp del]

definition hash_map_clear ::
  "('k, 'd) world \<Rightarrow> ('k, 'd, 'w::len) hash_map_t \<Rightarrow> ('k, 'd) world \<times> ('k, 'd, 'w) hash_map_t" where
  "hash_map_clear w m = hash_map_clear_loop 0 w m"

text \<open>
  \<^verbatim>\<open>hash_map_free\<close> (lines 102-108), for a map that is not \<^verbatim>\<open>NULL\<close>: clear, then release the
  bucket array and the map.
\<close>

definition hash_map_free :: "('k, 'd) world \<Rightarrow> ('k, 'd, 'w::len) hash_map_t \<Rightarrow> ('k, 'd) world" where
  "hash_map_free w m = allocator_free (allocator_free (fst (hash_map_clear w m)))"

subsection \<open>Iteration\<close>

text \<open>
  \<^verbatim>\<open>hash_map_foreach\<close> (lines 235-250). The callback returns whether to go on; what it does
  to the caller's state (through \<^verbatim>\<open>context\<close> or otherwise) is a state \<open>'c\<close> that it takes and
  returns. \<open>hash_map_foreach_chain\<close> is the inner loop over one chain; its first result is
  \<open>False\<close> when the callback asked to stop, which is the \<^verbatim>\<open>return\<close> at line 247.
\<close>

fun hash_map_foreach_chain ::
  "(('k, 'd) hash_map_entry_t \<Rightarrow> 'c \<Rightarrow> bool \<times> 'c) \<Rightarrow> ('k, 'd) list_t \<Rightarrow> 'c \<Rightarrow> bool \<times> 'c" where
  "hash_map_foreach_chain callback [] c = (True, c)"
| "hash_map_foreach_chain callback (hash_map_entry # rest) c =
     (let (go, c1) = callback hash_map_entry c
      in if \<not> go then (False, c1) else hash_map_foreach_chain callback rest c1)"

function hash_map_foreach_loop ::
  "nat \<Rightarrow> ('k, 'd, 'w::len) hash_map_t \<Rightarrow> (('k, 'd) hash_map_entry_t \<Rightarrow> 'c \<Rightarrow> bool \<times> 'c) \<Rightarrow> 'c \<Rightarrow> 'c" where
  "hash_map_foreach_loop i m callback c =
     (if i < num_bucket m
      then (case bucket m ! i of
              None \<Rightarrow> hash_map_foreach_loop (i + 1) m callback c
            | Some l \<Rightarrow>
                (let (go, c1) = hash_map_foreach_chain callback l c
                 in if \<not> go then c1 else hash_map_foreach_loop (i + 1) m callback c1))
      else c)"
  by pat_completeness auto
termination
  by (relation "measure (\<lambda>(i, m, callback, c). num_bucket m - i)") auto

declare hash_map_foreach_loop.simps [simp del]

definition hash_map_foreach ::
  "('k, 'd, 'w::len) hash_map_t \<Rightarrow> (('k, 'd) hash_map_entry_t \<Rightarrow> 'c \<Rightarrow> bool \<times> 'c) \<Rightarrow> 'c \<Rightarrow> 'c" where
  "hash_map_foreach m callback c = hash_map_foreach_loop 0 m callback c"

subsection \<open>Observations and invariants\<close>

text \<open>
  \<open>chain_of\<close> reads a bucket as the sequence of its entries (none for a \<^verbatim>\<open>NULL\<close> chain), and
  \<open>entries\<close> lists the entries of a map bucket by bucket, each chain head first.
\<close>

definition chain_of :: "('k, 'd) list_t option \<Rightarrow> ('k, 'd) list_t" where
  "chain_of b = (case b of None \<Rightarrow> [] | Some l \<Rightarrow> l)"

definition entries :: "('k, 'd, 'w::len) hash_map_t \<Rightarrow> ('k, 'd) hash_map_entry_t list" where
  "entries m = concat (map chain_of (bucket m))"

text \<open>
  A well-formed map: what \<^verbatim>\<open>hash_map_new_internal\<close> sets up and every operation keeps.
  The bucket count is not zero (the assertion at line 60), the bucket array has
  \<^verbatim>\<open>num_bucket\<close> slots, and every entry refers back to the map that holds it (line 177).
\<close>

definition hash_map_wf :: "('k, 'd, 'w::len) hash_map_t \<Rightarrow> bool" where
  "hash_map_wf m \<longleftrightarrow>
     0 < num_bucket m \<and> length (bucket m) = num_bucket m \<and>
     (\<forall>e \<in> set (entries m). hash_map e = hash_map_header.truncate m)"

text \<open>Every stored data reference is not \<^verbatim>\<open>NULL\<close> (the assertion at line 151).\<close>

definition data_non_null :: "('k, 'd, 'w::len) hash_map_t \<Rightarrow> bool" where
  "data_non_null m \<longleftrightarrow> (\<forall>e \<in> set (entries m). data e \<noteq> None)"

text \<open>
  The uniqueness of keys that the data model asks for: within one chain, at most one entry
  satisfies the configured equality predicate against any given key.
\<close>

definition keys_unique :: "('k, 'd, 'w::len) hash_map_t \<Rightarrow> bool" where
  "keys_unique m \<longleftrightarrow>
     (\<forall>b \<in> set (bucket m). \<forall>k.
        length (filter (\<lambda>e. keys_are_equal m (key e) k) (chain_of b)) \<le> 1)"

text \<open>
  \<open>chain_without m k\<close> is the chain of the bucket of \<open>k\<close> without the entry that a search
  for \<open>k\<close> finds: what is left of the chain when \<^verbatim>\<open>hash_map_erase\<close> or the replacing
  \<^verbatim>\<open>hash_map_set\<close> has removed the entry of \<open>k\<close>.
\<close>

definition chain_without :: "('k, 'd, 'w::len) hash_map_t \<Rightarrow> 'k \<Rightarrow> ('k, 'd) list_t" where
  "chain_without m k =
     (let l = chain_of (bucket m ! (hash_fn m k mod num_bucket m))
      in case find_bucket_entry_loop l k of
           None \<Rightarrow> l
         | Some e \<Rightarrow> remove1 e l)"

text \<open>
  Observing \<^verbatim>\<open>hash_map_foreach\<close>: \<open>recording callback\<close> is \<open>callback\<close> made to note, in
  order, the entries it is called with. \<open>visit_until_stop\<close> states what the documentation
  of the iteration says, for a sequence of entries: call the callback on them in order
  and stop right after the first call that returns false.
\<close>

definition recording ::
  "(('k, 'd) hash_map_entry_t \<Rightarrow> 'c \<Rightarrow> bool \<times> 'c)
     \<Rightarrow> ('k, 'd) hash_map_entry_t \<Rightarrow> ('k, 'd) hash_map_entry_t list \<times> 'c
     \<Rightarrow> bool \<times> ('k, 'd) hash_map_entry_t list \<times> 'c" where
  "recording callback e s =
     (case s of (visited, c) \<Rightarrow>
        (let (go, c1) = callback e c in (go, (visited @ [e], c1))))"

fun visit_until_stop ::
  "(('k, 'd) hash_map_entry_t \<Rightarrow> 'c \<Rightarrow> bool \<times> 'c) \<Rightarrow> ('k, 'd) hash_map_entry_t list \<Rightarrow> 'c
     \<Rightarrow> ('k, 'd) hash_map_entry_t list \<times> 'c" where
  "visit_until_stop callback [] c = ([], c)"
| "visit_until_stop callback (e # es) c =
     (let (go, c1) = callback e c
      in if go then (let (visited, c2) = visit_until_stop callback es c1 in (e # visited, c2))
         else ([e], c1))"

text \<open>
  Sequences of calls of \<^verbatim>\<open>hash_map_set\<close> and \<^verbatim>\<open>hash_map_erase\<close>, run from a world and a map;
  a failed assertion ends the run.
\<close>

datatype ('k, 'd) hash_map_op = Op_set 'k "'d option" | Op_erase 'k

fun op_key :: "('k, 'd) hash_map_op \<Rightarrow> 'k" where
  "op_key (Op_set k d) = k"
| "op_key (Op_erase k) = k"

fun apply_ops ::
  "('k, 'd) world \<Rightarrow> ('k, 'd, 'w::len) hash_map_t \<Rightarrow> ('k, 'd) hash_map_op list
     \<Rightarrow> abort + (('k, 'd) world \<times> ('k, 'd, 'w) hash_map_t)" where
  "apply_ops w m [] = Inr (w, m)"
| "apply_ops w m (Op_set k d # ops) =
     (case hash_map_set w m k d of
        Inl a \<Rightarrow> Inl a
      | Inr (w1, m1, rc) \<Rightarrow> apply_ops w1 m1 ops)"
| "apply_ops w m (Op_erase k # ops) =
     (case hash_map_erase w m k of (w1, m1, rc) \<Rightarrow> apply_ops w1 m1 ops)"

subsection \<open>A small map for the examples\<close>

text \<open>
  Two buckets, keys are numbers hashed to themselves, both cleanup hooks configured and
  the default key equality. \<open>example_map\<close> is the map after \<^verbatim>\<open>set(1, 10)\<close> and
  \<^verbatim>\<open>set(3, 30)\<close>: both keys collide in bucket 1. In \<open>example_world\<close> the next four
  allocations succeed.
\<close>

definition example_header :: "nat hash_map_header" where
  "example_header =
     \<lparr>num_bucket = 2, hash_fn = (\<lambda>k. k), key_fn = True, data_fn = True,
      keys_are_equal = default_key_equality\<rparr>"

definition example_entry :: "nat \<Rightarrow> nat \<Rightarrow> (nat, nat) hash_map_entry_t" where
  "example_entry k d = \<lparr>key = k, data = Some d, hash_map = example_header\<rparr>"

definition example_empty :: "(nat, nat, 32) hash_map_t" where
  "example_empty =
     \<lparr>num_bucket = 2, hash_fn = (\<lambda>k. k), key_fn = True, data_fn = True,
      keys_are_equal = default_key_equality,
      bucket = [None, None], hash_size = 0\<rparr>"

definition example_map :: "(nat, nat, 32) hash_map_t" where
  "example_map =
     \<lparr>num_bucket = 2, hash_fn = (\<lambda>k. k), key_fn = True, data_fn = True,
      keys_are_equal = default_key_equality,
      bucket = [None, Some [example_entry 1 10, example_entry 3 30]], hash_size = 2\<rparr>"

definition example_world :: "(nat, nat) world" where
  "example_world = \<lparr>alloc_plan = [True, True, True, True], free_calls = 0, hook_calls = []\<rparr>"

section \<open>Evaluating the examples\<close>

lemmas example_defs =
  example_header_def example_entry_def example_empty_def example_map_def example_world_def

lemmas model_defs =
  allocator_alloc_def allocator_free_def list_new_internal_def list_append_def
  list_free_node_def list_remove_def list_free_def call_hook_def bucket_free_def
  find_bucket_entry_def default_key_equality_def hash_map_header.truncate_def
  hash_map_has_key_def hash_map_get_def hash_map_size_def
  hash_map_set_entry_def hash_map_set_def hash_map_erase_def hash_map_clear_def
  hash_map_foreach_def chain_of_def entries_def
  hash_map_clear_loop.simps hash_map_foreach_loop.simps

lemma example_map_wf: "hash_map_wf example_map"
  by (simp add: hash_map_wf_def example_defs model_defs)

lemma example_map_data_non_null: "data_non_null example_map"
  by (simp add: data_non_null_def example_defs model_defs)

section \<open>Lookup\<close>

lemma find_bucket_entry_loop_None:
  "find_bucket_entry_loop l k = None \<longleftrightarrow>
     (\<forall>e \<in> set l. \<not> keys_are_equal (hash_map e) (key e) k)"
  by (induction l) auto

lemma find_bucket_entry_loop_Some:
  "find_bucket_entry_loop l k = Some e \<Longrightarrow>
     e \<in> set l \<and> keys_are_equal (hash_map e) (key e) k"
  by (induction l) (auto split: if_splits)

lemma chain_subset_entries:
  "i < length (bucket m) \<Longrightarrow> bucket m ! i = Some l \<Longrightarrow> set l \<subseteq> set (entries m)"
  by (auto simp: entries_def chain_of_def intro!: bexI [where x = "Some l"] nth_mem)

lemma bucket_index_in_range:
  "hash_map_wf m \<Longrightarrow> hash_fn m k mod num_bucket m < length (bucket m)"
  by (simp add: hash_map_wf_def)

section \<open>Records and bucket updates\<close>

lemma truncate_bucket_update [simp]:
  "hash_map_header.truncate (m\<lparr>bucket := b\<rparr>) = hash_map_header.truncate m"
  by (simp add: hash_map_header.truncate_def)

lemma truncate_hash_size_update [simp]:
  "hash_map_header.truncate (m\<lparr>hash_size := n\<rparr>) = hash_map_header.truncate m"
  by (simp add: hash_map_header.truncate_def)

lemma truncate_fields [simp]:
  "num_bucket (hash_map_header.truncate m) = num_bucket m"
  "hash_fn (hash_map_header.truncate m) = hash_fn m"
  "key_fn (hash_map_header.truncate m) = key_fn m"
  "data_fn (hash_map_header.truncate m) = data_fn m"
  "keys_are_equal (hash_map_header.truncate m) = keys_are_equal m"
  by (simp_all add: hash_map_header.truncate_def)

lemma header_fields:
  assumes "hash_map_header.truncate m' = hash_map_header.truncate m"
  shows "num_bucket m' = num_bucket m" and "hash_fn m' = hash_fn m"
    and "key_fn m' = key_fn m" and "data_fn m' = data_fn m"
    and "keys_are_equal m' = keys_are_equal m"
  using assms by (simp_all add: hash_map_header.truncate_def)

lemma chain_of_simps [simp]: "chain_of None = []" "chain_of (Some l) = l"
  by (simp_all add: chain_of_def)

lemma entries_bucket_update [simp]: "entries (m\<lparr>bucket := b\<rparr>) = concat (map chain_of b)"
  by (simp add: entries_def)

lemma entries_hash_size_update [simp]: "entries (m\<lparr>hash_size := n\<rparr>) = entries m"
  by (simp add: entries_def)

lemma concat_chains_update:
  "i < length bs \<Longrightarrow>
     concat (map chain_of (bs[i := b])) =
       concat (map chain_of (take i bs)) @ chain_of b @ concat (map chain_of (drop (Suc i) bs))"
  by (simp add: upd_conv_take_nth_drop)

lemma concat_chains_nth:
  "i < length bs \<Longrightarrow>
     concat (map chain_of bs) =
       concat (map chain_of (take i bs)) @ chain_of (bs ! i) @ concat (map chain_of (drop (Suc i) bs))"
  using concat_chains_update [of i bs "bs ! i"] by simp

lemma set_entries_chain_update:
  "set (entries (m\<lparr>bucket := (bucket m)[i := b]\<rparr>)) \<subseteq> set (entries m) \<union> set (chain_of b)"
  unfolding entries_def using set_update_subset_insert [of "bucket m" i b] by auto

lemma hash_map_wf_chain_update:
  assumes "hash_map_wf m" and "\<forall>e \<in> set l. hash_map e = hash_map_header.truncate m"
  shows "hash_map_wf (m\<lparr>bucket := (bucket m)[i := Some l]\<rparr>)"
proof -
  let ?m' = "m\<lparr>bucket := (bucket m)[i := Some l]\<rparr>"
  have "hash_map e = hash_map_header.truncate m" if "e \<in> set (entries ?m')" for e
    using that set_entries_chain_update [of m i "Some l"] assms
    by (auto simp: hash_map_wf_def)
  with assms(1) show ?thesis
    unfolding hash_map_wf_def by simp
qed

lemma set_concat_chains_update:
  "set (concat (map chain_of (bs[i := b]))) \<subseteq> set (concat (map chain_of bs)) \<union> set (chain_of b)"
  using set_update_subset_insert [of bs i b] by auto

section \<open>The paths through \<^verbatim>\<open>hash_map_set\<close>\<close>

lemma bucket_free_hook_calls:
  "hook_calls (bucket_free e w) =
     hook_calls w @ (if key_fn (hash_map e) then [Key_fn (key e)] else [])
       @ (if data_fn (hash_map e) then [Data_fn (data e)] else [])"
  by (simp add: bucket_free_def call_hook_def allocator_free_def)

lemma list_free_node_bucket_free_hook_calls:
  "hook_calls (list_free_node bucket_free e w) =
     hook_calls w @ (if key_fn (hash_map e) then [Key_fn (key e)] else [])
       @ (if data_fn (hash_map e) then [Data_fn (data e)] else [])"
  by (simp add: list_free_node_def allocator_free_def bucket_free_hook_calls)

lemma allocator_alloc_hook_calls: "hook_calls (snd (allocator_alloc w)) = hook_calls w"
  by (simp add: allocator_alloc_def split: list.splits)

lemma hash_map_set_entry_True:
  assumes "hash_map_set_entry w m i l k d = (w', m', True)"
  shows "m' = m\<lparr>bucket := (bucket m)
           [i := Some (l @ [\<lparr>key = k, data = d, hash_map = hash_map_header.truncate m\<rparr>])]\<rparr>"
    and "hook_calls w' = hook_calls w"
  using assms
  by (auto simp: hash_map_set_entry_def list_append_def allocator_alloc_def Let_def
      split: list.splits if_splits prod.splits)

lemma hash_map_set_entry_False:
  assumes "hash_map_set_entry w m i l k d = (w', m', False)"
  shows "m' = m\<lparr>bucket := (bucket m)[i := Some l]\<rparr>" and "hook_calls w' = hook_calls w"
  using assms
  by (auto simp: hash_map_set_entry_def list_append_def allocator_alloc_def Let_def
      split: list.splits if_splits prod.splits)

lemma hash_map_set_entry_alloc_fails:
  assumes "\<not> fst (allocator_alloc w)"
  shows "hash_map_set_entry w m i l k d =
           (snd (allocator_alloc w), m\<lparr>bucket := (bucket m)[i := Some l]\<rparr>, False)"
  using assms by (cases "allocator_alloc w") (simp add: hash_map_set_entry_def)

lemma hash_map_set_Inr_data: "hash_map_set w m k d = Inr r \<Longrightarrow> d \<noteq> None"
  by (cases d) (simp_all add: hash_map_set_def)

lemma hash_map_set_present:
  assumes "d \<noteq> None"
    and "bucket m ! (hash_fn m k mod num_bucket m) = Some l"
    and "find_bucket_entry_loop l k = Some e"
  shows "hash_map_set w m k d =
           Inr (hash_map_set_entry (list_free_node bucket_free e w) m
                  (hash_fn m k mod num_bucket m) (remove1 e l) k d)"
proof -
  from assms(3) have "e \<in> set l"
    by (simp add: find_bucket_entry_loop_Some)
  with assms show ?thesis
    by (simp add: hash_map_set_def find_bucket_entry_def list_remove_def)
qed

lemma hash_map_set_absent:
  assumes "d \<noteq> None"
    and "bucket m ! (hash_fn m k mod num_bucket m) = Some l"
    and "find_bucket_entry_loop l k = None"
  shows "hash_map_set w m k d =
           Inr (hash_map_set_entry w (m\<lparr>hash_size := hash_size m + 1\<rparr>)
                  (hash_fn m k mod num_bucket m) l k d)"
  using assms by (simp add: hash_map_set_def find_bucket_entry_def)

lemma hash_map_set_no_chain:
  assumes "d \<noteq> None"
    and "hash_fn m k mod num_bucket m < length (bucket m)"
    and "bucket m ! (hash_fn m k mod num_bucket m) = None"
  shows "hash_map_set w m k d =
           (if fst (allocator_alloc w)
            then Inr (hash_map_set_entry (snd (allocator_alloc w))
                        (m\<lparr>bucket := (bucket m)[hash_fn m k mod num_bucket m := Some []],
                           hash_size := hash_size m + 1\<rparr>)
                        (hash_fn m k mod num_bucket m) [] k d)
            else Inr (snd (allocator_alloc w), m, False))"
  using assms
  by (cases "allocator_alloc w")
     (simp add: hash_map_set_def find_bucket_entry_def list_new_internal_def
        list_update_same_conv Let_def)

section \<open>Searching a chain\<close>

lemma find_bucket_entry_loop_append:
  "find_bucket_entry_loop (xs @ ys) k =
     (case find_bucket_entry_loop xs k of
        Some e \<Rightarrow> Some e
      | None \<Rightarrow> find_bucket_entry_loop ys k)"
  by (induction xs) auto

lemma find_bucket_entry_loop_remove1_other:
  "find_bucket_entry_loop l k = Some e \<Longrightarrow> e' \<noteq> e \<Longrightarrow>
     find_bucket_entry_loop (remove1 e' l) k = Some e"
  by (induction l) (auto split: if_splits)

lemma no_match_after_remove1:
  assumes "length (filter P l) \<le> 1" and "e \<in> set l" and "P e"
  shows "filter P (remove1 e l) = []"
proof -
  from assms(2,3) have "e \<in> set (filter P l)"
    by simp
  with assms(1) have "filter P l = [e]"
    by (cases "filter P l") auto
  then show ?thesis
    by (simp add: filter_remove1)
qed

lemma wf_chain_back_reference:
  assumes "hash_map_wf m" and "i < length (bucket m)" and "bucket m ! i = Some l"
    and "e \<in> set l"
  shows "hash_map e = hash_map_header.truncate m"
  using assms chain_subset_entries [of i m l] by (auto simp: hash_map_wf_def)

lemma keys_unique_chain:
  assumes "keys_unique m" and "i < length (bucket m)" and "bucket m ! i = Some l"
  shows "length (filter (\<lambda>e. keys_are_equal m (key e) k) l) \<le> 1"
proof -
  from assms(2,3) have "Some l \<in> set (bucket m)"
    by (metis nth_mem)
  with assms(1) show ?thesis
    by (fastforce simp: keys_unique_def chain_of_def)
qed

lemma first_match_removed:
  assumes wf: "hash_map_wf m" and uniq: "keys_unique m"
    and i: "i < length (bucket m)" and l: "bucket m ! i = Some l"
    and f: "find_bucket_entry_loop l k = Some e"
  shows "find_bucket_entry_loop (remove1 e l) k = None"
proof -
  let ?P = "\<lambda>e. keys_are_equal m (key e) k"
  from f have e: "e \<in> set l" and "keys_are_equal (hash_map e) (key e) k"
    by (simp_all add: find_bucket_entry_loop_Some)
  then have "?P e"
    using wf_chain_back_reference [OF wf i l] by simp
  with keys_unique_chain [OF uniq i l] e have none: "filter ?P (remove1 e l) = []"
    by (rule no_match_after_remove1)
  have "\<not> keys_are_equal (hash_map x) (key x) k" if "x \<in> set (remove1 e l)" for x
  proof -
    from that have "x \<in> set l"
      using set_remove1_subset [of e l] by blast
    then have "hash_map x = hash_map_header.truncate m"
      by (rule wf_chain_back_reference [OF wf i l])
    moreover from none that have "\<not> ?P x"
      by (auto simp: filter_empty_conv)
    ultimately show ?thesis by simp
  qed
  then show ?thesis
    by (simp add: find_bucket_entry_loop_None)
qed

lemma hash_map_get_chain_update:
  assumes "hash_fn m k mod num_bucket m < length (bucket m)"
  shows "hash_map_get (m\<lparr>bucket := (bucket m)[hash_fn m k mod num_bucket m := Some l]\<rparr>) k =
           (case find_bucket_entry_loop l k of Some e \<Rightarrow> data e | None \<Rightarrow> None)"
  using assms by (simp add: hash_map_get_def find_bucket_entry_def)

lemma hash_map_has_key_chain_update:
  assumes "hash_fn m k mod num_bucket m < length (bucket m)"
  shows "hash_map_has_key (m\<lparr>bucket := (bucket m)[hash_fn m k mod num_bucket m := Some l]\<rparr>) k
           \<longleftrightarrow> find_bucket_entry_loop l k \<noteq> None"
  using assms by (simp add: hash_map_has_key_def find_bucket_entry_def)

lemma present_chain:
  assumes "find_bucket_entry (bucket m ! i) k = Some e"
  obtains l where "bucket m ! i = Some l" and "find_bucket_entry_loop l k = Some e"
  using assms by (auto simp: find_bucket_entry_def split: option.splits)

text \<open>
  Claim C9. In a map whose stored data references are all non-null, \<^verbatim>\<open>hash_map_has_key\<close>
  is true for a key exactly when \<^verbatim>\<open>hash_map_get\<close> returns a non-null reference for it:
  both look for the key with the same search in the same bucket. Both are functions of
  the map and the key alone and return no map, as their \<^verbatim>\<open>const hash_map_t *\<close> says.
\<close>

theorem has_key_iff_get:
  assumes "hash_map_wf m" and "data_non_null m"
  shows "hash_map_has_key m k \<longleftrightarrow> hash_map_get m k \<noteq> None"
proof -
  let ?i = "hash_fn m k mod num_bucket m"
  show ?thesis
  proof (cases "find_bucket_entry (bucket m ! ?i) k")
    case None
    then show ?thesis
      by (simp add: hash_map_has_key_def hash_map_get_def)
  next
    case (Some e)
    then obtain l where l: "bucket m ! ?i = Some l" and f: "find_bucket_entry_loop l k = Some e"
      by (auto simp: find_bucket_entry_def split: option.splits)
    from f have "e \<in> set l"
      by (simp add: find_bucket_entry_loop_Some)
    with l assms(1) have "e \<in> set (entries m)"
      using chain_subset_entries [OF bucket_index_in_range [OF assms(1)], of k l] by blast
    with assms(2) have "data e \<noteq> None"
      by (simp add: data_non_null_def)
    with Some show ?thesis
      by (simp add: hash_map_has_key_def hash_map_get_def)
  qed
qed

theorem has_key_iff_get_witness:
  "hash_map_wf example_map \<and> data_non_null example_map \<and>
   hash_map_has_key example_map 3 \<and> hash_map_get example_map 3 = Some 30"
  using has_key_iff_get [OF example_map_wf example_map_data_non_null, of 3]
  by (simp add: example_map_wf example_map_data_non_null)
     (simp add: example_defs model_defs)

section \<open>The example map\<close>

lemma example_map_keys_unique: "keys_unique example_map"
  by (auto simp: keys_unique_def example_defs model_defs)

lemma example_map_present_1:
  "find_bucket_entry (bucket example_map ! (hash_fn example_map 1 mod num_bucket example_map)) 1
     = Some (example_entry 1 10)"
  by (simp add: example_defs model_defs)

lemma example_map_absent_5: "\<not> hash_map_has_key example_map 5"
  by (simp add: example_defs model_defs)

section \<open>Claims about \<^verbatim>\<open>hash_map_set\<close>\<close>

text \<open>
  Claim C3. When \<^verbatim>\<open>hash_map_set\<close> is called with a key that is not in the map and the
  allocation of the new entry record fails, it returns false, and the counter
  \<^verbatim>\<open>hash_size\<close> has been incremented all the same: the map holds the entries it held
  before, the key is still absent, and \<^verbatim>\<open>hash_map_size\<close> is one more than before.
  The entry record is the first allocation of the call when the bucket has a chain, and
  the second one, after the chain's, when it has none.
\<close>

theorem set_alloc_failure_keeps_increment:
  assumes "hash_map_wf m" and "d \<noteq> None" and "\<not> hash_map_has_key m k"
    and "if bucket m ! (hash_fn m k mod num_bucket m) = None
         then fst (allocator_alloc w) \<and> \<not> fst (allocator_alloc (snd (allocator_alloc w)))
         else \<not> fst (allocator_alloc w)"
  shows "\<exists>w' m'. hash_map_set w m k d = Inr (w', m', False) \<and>
           hash_map_size m' = hash_map_size m + 1 \<and>
           entries m' = entries m \<and> \<not> hash_map_has_key m' k"
proof -
  let ?i = "hash_fn m k mod num_bucket m"
  from assms(1) have i: "?i < length (bucket m)"
    by (rule bucket_index_in_range)
  show ?thesis
  proof (cases "bucket m ! ?i")
    case None
    let ?m1 = "m\<lparr>bucket := (bucket m)[?i := Some []], hash_size := hash_size m + 1\<rparr>"
    let ?w1 = "snd (allocator_alloc w)"
    from None assms(4) have ok: "fst (allocator_alloc w)" and fails: "\<not> fst (allocator_alloc ?w1)"
      by simp_all
    have "hash_map_set w m k d = Inr (hash_map_set_entry ?w1 ?m1 ?i [] k d)"
      using hash_map_set_no_chain [OF assms(2) i None] ok by simp
    also have "hash_map_set_entry ?w1 ?m1 ?i [] k d =
        (snd (allocator_alloc ?w1), ?m1\<lparr>bucket := (bucket ?m1)[?i := Some []]\<rparr>, False)"
      using fails by (rule hash_map_set_entry_alloc_fails)
    finally have run: "hash_map_set w m k d =
        Inr (snd (allocator_alloc ?w1), ?m1\<lparr>bucket := (bucket ?m1)[?i := Some []]\<rparr>, False)" .
    have "chain_of (Some []) = chain_of (bucket m ! ?i)"
      using None by (simp add: chain_of_def)
    then have "map chain_of ((bucket m)[?i := Some []]) = map chain_of (bucket m)"
      by (simp add: map_update list_update_same_conv i)
    then have same: "entries (?m1\<lparr>bucket := (bucket ?m1)[?i := Some []]\<rparr>) = entries m"
      by (simp add: entries_def)
    have "\<not> hash_map_has_key (?m1\<lparr>bucket := (bucket ?m1)[?i := Some []]\<rparr>) k"
      using i by (simp add: hash_map_has_key_def find_bucket_entry_def)
    with run same show ?thesis
      by (simp add: hash_map_size_def)
  next
    case (Some l)
    let ?m1 = "m\<lparr>hash_size := hash_size m + 1\<rparr>"
    from Some assms(3) have absent: "find_bucket_entry_loop l k = None"
      by (simp add: hash_map_has_key_def find_bucket_entry_def)
    from Some assms(4) have fails: "\<not> fst (allocator_alloc w)"
      by simp
    have "hash_map_set w m k d = Inr (hash_map_set_entry w ?m1 ?i l k d)"
      using assms(2) Some absent by (rule hash_map_set_absent)
    also have "hash_map_set_entry w ?m1 ?i l k d =
        (snd (allocator_alloc w), ?m1\<lparr>bucket := (bucket ?m1)[?i := Some l]\<rparr>, False)"
      using fails by (rule hash_map_set_entry_alloc_fails)
    finally have run: "hash_map_set w m k d =
        Inr (snd (allocator_alloc w), ?m1\<lparr>bucket := (bucket ?m1)[?i := Some l]\<rparr>, False)" .
    have unchanged: "(bucket m)[?i := Some l] = bucket m"
      using Some i by (simp add: list_update_same_conv)
    then have same: "entries (?m1\<lparr>bucket := (bucket ?m1)[?i := Some l]\<rparr>) = entries m"
      by (simp add: entries_def)
    have "\<not> hash_map_has_key (?m1\<lparr>bucket := (bucket ?m1)[?i := Some l]\<rparr>) k"
      using assms(3) unchanged by (simp add: hash_map_has_key_def)
    with run same show ?thesis
      by (simp add: hash_map_size_def)
  qed
qed

theorem set_alloc_failure_keeps_increment_witness:
  "hash_map_wf example_map \<and> \<not> hash_map_has_key example_map 5 \<and>
   bucket example_map ! (hash_fn example_map 5 mod num_bucket example_map) \<noteq> None \<and>
   \<not> fst (allocator_alloc (example_world\<lparr>alloc_plan := [False]\<rparr>)) \<and>
   (\<exists>w' m'. hash_map_set (example_world\<lparr>alloc_plan := [False]\<rparr>) example_map 5 (Some 50)
               = Inr (w', m', False) \<and>
      hash_map_size m' = 3 \<and> entries m' = entries example_map \<and> \<not> hash_map_has_key m' 5)"
proof -
  have chain: "bucket example_map ! (hash_fn example_map 5 mod num_bucket example_map) \<noteq> None"
    by (simp add: example_defs)
  have fails: "\<not> fst (allocator_alloc (example_world\<lparr>alloc_plan := [False]\<rparr>))"
    by (simp add: example_defs allocator_alloc_def)
  have size: "hash_map_size example_map = 2"
    by (simp add: example_defs hash_map_size_def)
  from chain fails
  have "if bucket example_map ! (hash_fn example_map 5 mod num_bucket example_map) = None
        then fst (allocator_alloc (example_world\<lparr>alloc_plan := [False]\<rparr>)) \<and>
             \<not> fst (allocator_alloc (snd (allocator_alloc (example_world\<lparr>alloc_plan := [False]\<rparr>))))
        else \<not> fst (allocator_alloc (example_world\<lparr>alloc_plan := [False]\<rparr>))"
    by simp
  from set_alloc_failure_keeps_increment [OF example_map_wf _ example_map_absent_5 this, of "Some 50"]
  show ?thesis
    using example_map_wf example_map_absent_5 chain fails size by simp
qed

text \<open>
  Claim C4. When the key is already in the map, a successful \<^verbatim>\<open>hash_map_set\<close> replaces the
  stored data: \<^verbatim>\<open>hash_map_get\<close> then returns the new data reference, \<^verbatim>\<open>hash_map_size\<close> is
  what it was, and the calls of the cleanup hooks made by the operation are exactly one
  call of \<^verbatim>\<open>key_fn\<close> on the replaced entry's key and one call of \<^verbatim>\<open>data_fn\<close> on its data,
  each if the hook is configured. The map is well-formed with unique keys, and the
  equality predicate holds between the key and itself.
\<close>

theorem set_replaces_present_key:
  assumes wf: "hash_map_wf m" and uniq: "keys_unique m" and refl: "keys_are_equal m k k"
    and present: "find_bucket_entry (bucket m ! (hash_fn m k mod num_bucket m)) k = Some old"
    and succ: "hash_map_set w m k d = Inr (w', m', True)"
  shows "hash_map_get m' k = d \<and> hash_map_size m' = hash_map_size m \<and>
         hook_calls w' = hook_calls w
           @ (if key_fn m then [Key_fn (key old)] else [])
           @ (if data_fn m then [Data_fn (data old)] else [])"
proof -
  let ?i = "hash_fn m k mod num_bucket m"
  let ?new = "\<lparr>key = k, data = d, hash_map = hash_map_header.truncate m\<rparr>"
  from wf have i: "?i < length (bucket m)"
    by (rule bucket_index_in_range)
  from present obtain l where l: "bucket m ! ?i = Some l"
    and f: "find_bucket_entry_loop l k = Some old"
    by (rule present_chain)
  from f have "old \<in> set l"
    by (simp add: find_bucket_entry_loop_Some)
  then have backref: "hash_map old = hash_map_header.truncate m"
    by (rule wf_chain_back_reference [OF wf i l])
  from succ have d: "d \<noteq> None"
    by (rule hash_map_set_Inr_data)
  from succ hash_map_set_present [OF d l f, of w]
  have run: "hash_map_set_entry (list_free_node bucket_free old w) m ?i (remove1 old l) k d
      = (w', m', True)"
    by simp
  then have m': "m' = m\<lparr>bucket := (bucket m)[?i := Some (remove1 old l @ [?new])]\<rparr>"
    and "hook_calls w' = hook_calls (list_free_node bucket_free old w)"
    by (rule hash_map_set_entry_True)+
  then have hooks: "hook_calls w' = hook_calls w
      @ (if key_fn m then [Key_fn (key old)] else [])
      @ (if data_fn m then [Data_fn (data old)] else [])"
    by (simp add: list_free_node_bucket_free_hook_calls backref)
  have "find_bucket_entry_loop (remove1 old l) k = None"
    using wf uniq i l f by (rule first_match_removed)
  then have "find_bucket_entry_loop (remove1 old l @ [?new]) k = Some ?new"
    using refl by (simp add: find_bucket_entry_loop_append)
  then have "hash_map_get m' k = d"
    unfolding m' using i by (simp add: hash_map_get_chain_update)
  moreover have "hash_map_size m' = hash_map_size m"
    by (simp add: m' hash_map_size_def)
  ultimately show ?thesis
    using hooks by simp
qed

lemma example_set_replace:
  "hash_map_set example_world example_map 1 (Some 11) =
     Inr (example_world\<lparr>alloc_plan := [True, True], free_calls := 2,
            hook_calls := [Key_fn 1, Data_fn (Some 10)]\<rparr>,
          example_map\<lparr>bucket := [None, Some [example_entry 3 30, example_entry 1 11]]\<rparr>,
          True)"
  by (simp add: example_defs model_defs)

theorem set_replaces_present_key_witness:
  "hash_map_wf example_map \<and> keys_unique example_map \<and> keys_are_equal example_map 1 1 \<and>
   find_bucket_entry (bucket example_map ! (hash_fn example_map 1 mod num_bucket example_map)) 1
     = Some (example_entry 1 10) \<and>
   hash_map_set example_world example_map 1 (Some 11) =
     Inr (example_world\<lparr>alloc_plan := [True, True], free_calls := 2,
            hook_calls := [Key_fn 1, Data_fn (Some 10)]\<rparr>,
          example_map\<lparr>bucket := [None, Some [example_entry 3 30, example_entry 1 11]]\<rparr>,
          True) \<and>
   hash_map_get
     (example_map\<lparr>bucket := [None, Some [example_entry 3 30, example_entry 1 11]]\<rparr>) 1
     = Some 11 \<and>
   hash_map_size
     (example_map\<lparr>bucket := [None, Some [example_entry 3 30, example_entry 1 11]]\<rparr>)
     = hash_map_size example_map"
proof -
  have refl: "keys_are_equal example_map 1 1"
    by (simp add: example_defs default_key_equality_def)
  from set_replaces_present_key [OF example_map_wf example_map_keys_unique refl
      example_map_present_1 example_set_replace]
  show ?thesis
    using example_map_wf example_map_keys_unique refl example_map_present_1 example_set_replace
    by simp
qed

section \<open>Claims about \<^verbatim>\<open>hash_map_erase\<close>\<close>

text \<open>
  Claim C5. When the key is in the map, \<^verbatim>\<open>hash_map_erase\<close> returns true, \<^verbatim>\<open>hash_map_size\<close>
  is one less than before (in the arithmetic of \<^verbatim>\<open>size_t\<close>, and as a number when the
  counter was not zero), \<^verbatim>\<open>hash_map_has_key\<close> is false for the key afterwards, and the
  calls of the cleanup hooks made by the operation are exactly one call of \<^verbatim>\<open>key_fn\<close> on
  the entry's key and one call of \<^verbatim>\<open>data_fn\<close> on its data, each if the hook is
  configured. The map is well-formed with unique keys.
\<close>

theorem erase_present_key:
  assumes wf: "hash_map_wf m" and uniq: "keys_unique m"
    and present: "find_bucket_entry (bucket m ! (hash_fn m k mod num_bucket m)) k = Some old"
  shows "\<exists>w' m'. hash_map_erase w m k = (w', m', True) \<and>
           hash_map_size m' = hash_map_size m - 1 \<and>
           (hash_map_size m \<noteq> 0 \<longrightarrow> unat (hash_map_size m') + 1 = unat (hash_map_size m)) \<and>
           \<not> hash_map_has_key m' k \<and>
           hook_calls w' = hook_calls w
             @ (if key_fn m then [Key_fn (key old)] else [])
             @ (if data_fn m then [Data_fn (data old)] else [])"
proof -
  let ?i = "hash_fn m k mod num_bucket m"
  let ?m1 = "m\<lparr>hash_size := hash_size m - 1\<rparr>"
  from wf have i: "?i < length (bucket m)"
    by (rule bucket_index_in_range)
  from present obtain l where l: "bucket m ! ?i = Some l"
    and f: "find_bucket_entry_loop l k = Some old"
    by (rule present_chain)
  let ?m' = "?m1\<lparr>bucket := (bucket ?m1)[?i := Some (remove1 old l)]\<rparr>"
  from f have mem: "old \<in> set l"
    by (simp add: find_bucket_entry_loop_Some)
  then have backref: "hash_map old = hash_map_header.truncate m"
    by (rule wf_chain_back_reference [OF wf i l])
  have run: "hash_map_erase w m k = (list_free_node bucket_free old w, ?m', True)"
    using present l mem by (simp add: hash_map_erase_def list_remove_def)
  have "find_bucket_entry_loop (remove1 old l) k = None"
    using wf uniq i l f by (rule first_match_removed)
  then have gone: "\<not> hash_map_has_key ?m' k"
    using i by (simp add: hash_map_has_key_def find_bucket_entry_def)
  have size: "hash_map_size ?m' = hash_map_size m - 1"
    by (simp add: hash_map_size_def)
  have "unat (hash_map_size ?m') + 1 = unat (hash_map_size m)" if "hash_map_size m \<noteq> 0"
  proof -
    from that have "0 < unat (hash_map_size m)"
      by (simp add: unat_gt_0)
    with that show ?thesis
      unfolding size by (simp add: unat_minus_one)
  qed
  moreover have "hook_calls (list_free_node bucket_free old w) = hook_calls w
      @ (if key_fn m then [Key_fn (key old)] else [])
      @ (if data_fn m then [Data_fn (data old)] else [])"
    by (simp add: list_free_node_bucket_free_hook_calls backref)
  ultimately show ?thesis
    using run gone size by blast
qed

theorem erase_present_key_witness:
  "hash_map_wf example_map \<and> keys_unique example_map \<and>
   find_bucket_entry (bucket example_map ! (hash_fn example_map 1 mod num_bucket example_map)) 1
     = Some (example_entry 1 10) \<and>
   hash_map_size example_map \<noteq> 0 \<and>
   (\<exists>w' m'. hash_map_erase example_world example_map 1 = (w', m', True) \<and>
      hash_map_size m' = 1 \<and> unat (hash_map_size m') + 1 = unat (hash_map_size example_map) \<and>
      \<not> hash_map_has_key m' 1 \<and> hook_calls w' = [Key_fn 1, Data_fn (Some 10)])"
proof -
  have size: "hash_map_size example_map = 2"
    by (simp add: example_defs hash_map_size_def)
  have hooks: "key_fn example_map" "data_fn example_map" "hook_calls example_world = []"
    by (simp_all add: example_defs)
  from erase_present_key [OF example_map_wf example_map_keys_unique example_map_present_1,
      of example_world]
  show ?thesis
    using example_map_wf example_map_keys_unique example_map_present_1
    by (simp add: size hooks example_entry_def)
qed

text \<open>
  Claim C6. When the key is not in the map, \<^verbatim>\<open>hash_map_erase\<close> returns false and changes
  nothing: the map (counter and chains) and the world (allocator and log of the hook
  calls) are what they were.
\<close>

theorem erase_absent_key:
  assumes "\<not> hash_map_has_key m k"
  shows "hash_map_erase w m k = (w, m, False)"
  using assms by (simp add: hash_map_erase_def hash_map_has_key_def Let_def)

theorem erase_absent_key_witness:
  "\<not> hash_map_has_key example_map 5 \<and>
   hash_map_erase example_world example_map 5 = (example_world, example_map, False)"
  using erase_absent_key [OF example_map_absent_5, of example_world] example_map_absent_5
  by simp

section \<open>Iteration\<close>

lemma hash_map_foreach_chain_append:
  "hash_map_foreach_chain cb (xs @ ys) c =
     (if fst (hash_map_foreach_chain cb xs c)
      then hash_map_foreach_chain cb ys (snd (hash_map_foreach_chain cb xs c))
      else hash_map_foreach_chain cb xs c)"
  by (induction xs arbitrary: c) (auto split: prod.splits)

lemma hash_map_foreach_chain_stopped:
  "\<not> fst (hash_map_foreach_chain cb xs c) \<Longrightarrow>
     hash_map_foreach_chain cb xs c = (False, snd (hash_map_foreach_chain cb xs c))"
  by (cases "hash_map_foreach_chain cb xs c") simp

lemma hash_map_foreach_loop_chain:
  assumes "length (bucket m) = num_bucket m"
  shows "hash_map_foreach_loop i m cb c =
           snd (hash_map_foreach_chain cb (concat (map chain_of (drop i (bucket m)))) c)"
  using assms
proof (induction i m cb c rule: hash_map_foreach_loop.induct)
  case (1 i m cb c)
  show ?case
  proof (cases "i < num_bucket m")
    case False
    with "1.prems" show ?thesis
      by (simp add: hash_map_foreach_loop.simps [of i])
  next
    case True
    with "1.prems" have split: "drop i (bucket m) = bucket m ! i # drop (Suc i) (bucket m)"
      by (simp add: Cons_nth_drop_Suc)
    show ?thesis
    proof (cases "bucket m ! i")
      case None
      with True "1.IH"(1) "1.prems" show ?thesis
        by (simp add: hash_map_foreach_loop.simps [of i] split)
    next
      case (Some l)
      obtain go c1 where chain: "hash_map_foreach_chain cb l c = (go, c1)"
        by (cases "hash_map_foreach_chain cb l c")
      show ?thesis
      proof (cases go)
        case False
        with True Some chain show ?thesis
          by (simp add: hash_map_foreach_loop.simps [of i] split
              hash_map_foreach_chain_append)
      next
        case go: True
        from "1.IH"(2) [OF True Some chain [symmetric]] go "1.prems"
        have "hash_map_foreach_loop (i + 1) m cb c1 =
            snd (hash_map_foreach_chain cb (concat (map chain_of (drop (i + 1) (bucket m)))) c1)"
          by simp
        with True Some chain go show ?thesis
          by (simp add: hash_map_foreach_loop.simps [of i] split
              hash_map_foreach_chain_append)
      qed
    qed
  qed
qed

lemma hash_map_foreach_entries:
  "length (bucket m) = num_bucket m \<Longrightarrow>
     hash_map_foreach m cb c = snd (hash_map_foreach_chain cb (entries m) c)"
  by (simp add: hash_map_foreach_def hash_map_foreach_loop_chain entries_def)

lemma hash_map_foreach_chain_recording:
  "snd (hash_map_foreach_chain (recording cb) l (acc, c)) =
     (acc @ fst (visit_until_stop cb l c), snd (visit_until_stop cb l c))"
proof (induction l arbitrary: acc c)
  case Nil
  show ?case by simp
next
  case (Cons e es)
  obtain go c1 where step: "cb e c = (go, c1)"
    by (cases "cb e c")
  obtain vis c2 where rest: "visit_until_stop cb es c1 = (vis, c2)"
    by (cases "visit_until_stop cb es c1")
  from Cons.IH [of "acc @ [e]" c1] step rest show ?case
    by (simp add: recording_def)
qed

lemma visit_until_stop_prefix: "prefix (fst (visit_until_stop cb l c)) l"
proof (induction l arbitrary: c)
  case Nil
  show ?case by simp
next
  case (Cons e es)
  obtain go c1 where step: "cb e c = (go, c1)"
    by (cases "cb e c")
  obtain vis c2 where rest: "visit_until_stop cb es c1 = (vis, c2)"
    by (cases "visit_until_stop cb es c1")
  from Cons.IH [of c1] rest have "prefix vis es"
    by simp
  with step rest show ?case
    by simp
qed

lemma visit_until_stop_all:
  assumes "\<And>e s. fst (cb e s)"
  shows "fst (visit_until_stop cb l c) = l"
proof (induction l arbitrary: c)
  case Nil
  show ?case by simp
next
  case (Cons e es)
  obtain go c1 where step: "cb e c = (go, c1)"
    by (cases "cb e c")
  with assms [of e c] have go by simp
  obtain vis c2 where rest: "visit_until_stop cb es c1 = (vis, c2)"
    by (cases "visit_until_stop cb es c1")
  from Cons.IH [of c1] rest have "vis = es"
    by simp
  with step \<open>go\<close> rest show ?case
    by simp
qed

lemma visit_until_stop_decided:
  assumes "\<And>e s. fst (cb e s) = go e"
  shows "fst (visit_until_stop cb l c) = takeWhile go l @ take 1 (dropWhile go l)"
proof (induction l arbitrary: c)
  case Nil
  show ?case by simp
next
  case (Cons e es)
  obtain b c1 where step: "cb e c = (b, c1)"
    by (cases "cb e c")
  with assms [of e c] have b: "b = go e" by simp
  obtain vis c2 where rest: "visit_until_stop cb es c1 = (vis, c2)"
    by (cases "visit_until_stop cb es c1")
  from Cons.IH [of c1] rest have "vis = takeWhile go es @ take 1 (dropWhile go es)"
    by simp
  with step b rest show ?case
    by simp
qed

lemma hash_map_foreach_recording:
  assumes "hash_map_wf m"
  shows "hash_map_foreach m (recording cb) ([], c) = visit_until_stop cb (entries m) c"
proof -
  from assms have "length (bucket m) = num_bucket m"
    by (simp add: hash_map_wf_def)
  then show ?thesis
    by (simp add: hash_map_foreach_entries hash_map_foreach_chain_recording)
qed

text \<open>
  Claim C8. \<^verbatim>\<open>hash_map_foreach\<close> calls the callback on the entries of the map in the order
  of \<open>entries\<close> (buckets by ascending index, each chain from its head, which is the order
  of insertion into the chain) and stops right after the first call that returns false.
  So the entries visited are a prefix of \<open>entries m\<close>, each visited once; when the callback
  always returns true they are all of \<open>entries m\<close>; when the callback's answer \<open>go\<close> depends
  on the entry alone they are the entries before the first one with a false answer,
  and that one; and on an empty map the callback is not called.
\<close>

theorem foreach_visits_in_order_until_stop:
  assumes "hash_map_wf m"
  shows "hash_map_foreach m (recording callback) ([], c) = visit_until_stop callback (entries m) c \<and>
         prefix (fst (hash_map_foreach m (recording callback) ([], c))) (entries m) \<and>
         ((\<forall>e s. fst (callback e s)) \<longrightarrow>
            fst (hash_map_foreach m (recording callback) ([], c)) = entries m) \<and>
         ((\<forall>e s. fst (callback e s) = go e) \<longrightarrow>
            fst (hash_map_foreach m (recording callback) ([], c)) =
              takeWhile go (entries m) @ take 1 (dropWhile go (entries m))) \<and>
         (entries m = [] \<longrightarrow> fst (hash_map_foreach m (recording callback) ([], c)) = [])"
proof -
  have run: "hash_map_foreach m (recording callback) ([], c) =
      visit_until_stop callback (entries m) c"
    using assms by (rule hash_map_foreach_recording)
  have "prefix (fst (visit_until_stop callback (entries m) c)) (entries m)"
    by (rule visit_until_stop_prefix)
  moreover have "fst (visit_until_stop callback (entries m) c) = entries m"
    if "\<forall>e s. fst (callback e s)"
    using that by (simp add: visit_until_stop_all)
  moreover have "fst (visit_until_stop callback (entries m) c) =
      takeWhile go (entries m) @ take 1 (dropWhile go (entries m))"
    if "\<forall>e s. fst (callback e s) = go e"
    using that by (simp add: visit_until_stop_decided)
  moreover have "fst (visit_until_stop callback (entries m) c) = []" if "entries m = []"
    using that by simp
  ultimately show ?thesis
    unfolding run by blast
qed

lemma example_empty_wf: "hash_map_wf example_empty"
  by (simp add: hash_map_wf_def example_defs model_defs)

theorem foreach_visits_in_order_until_stop_witness:
  "hash_map_wf example_map \<and> hash_map_wf example_empty \<and> entries example_empty = [] \<and>
   hash_map_foreach example_map (recording (\<lambda>e s. (key e \<noteq> 1, Suc s))) ([], 0 :: nat)
     = ([example_entry 1 10], 1) \<and>
   hash_map_foreach example_map (recording (\<lambda>e s. (True, Suc s))) ([], 0 :: nat)
     = ([example_entry 1 10, example_entry 3 30], 2) \<and>
   hash_map_foreach example_empty (recording (\<lambda>e s. (True, Suc s))) ([], 0 :: nat) = ([], 0)"
proof -
  have entries: "entries example_map = [example_entry 1 10, example_entry 3 30]"
    "entries example_empty = []"
    by (simp_all add: example_defs entries_def)
  from foreach_visits_in_order_until_stop [OF example_map_wf,
      of "\<lambda>e s. (key e \<noteq> 1, Suc s)" 0 "\<lambda>e. key e \<noteq> 1"]
    foreach_visits_in_order_until_stop [OF example_map_wf, of "\<lambda>e s. (True, Suc s)" 0 "\<lambda>e. True"]
    foreach_visits_in_order_until_stop [OF example_empty_wf, of "\<lambda>e s. (True, Suc s)" 0 "\<lambda>e. True"]
  show ?thesis
    using example_map_wf example_empty_wf
    by (simp add: entries example_entry_def)
qed

text \<open>
  Claim C10. When the key is already in the map, a successful \<^verbatim>\<open>hash_map_set\<close> takes the
  old entry out of the chain of its bucket and appends the new entry at the tail of that
  chain, wherever the old entry was. A following \<^verbatim>\<open>hash_map_foreach\<close> that is not stopped
  visits the entries of the earlier buckets, then the other entries of the chain, then
  the new entry, then the entries of the later buckets.
\<close>

theorem set_present_key_moves_to_tail:
  assumes wf: "hash_map_wf m"
    and chain: "bucket m ! (hash_fn m k mod num_bucket m) = Some l"
    and present: "find_bucket_entry_loop l k = Some old"
    and succ: "hash_map_set w m k d = Inr (w', m', True)"
  shows "bucket m' = (bucket m)[hash_fn m k mod num_bucket m :=
           Some (remove1 old l @ [\<lparr>key = k, data = d, hash_map = hash_map_header.truncate m\<rparr>])] \<and>
         fst (hash_map_foreach m' (recording (\<lambda>e s. (True, s))) ([], c)) =
           concat (map chain_of (take (hash_fn m k mod num_bucket m) (bucket m)))
           @ remove1 old l @ [\<lparr>key = k, data = d, hash_map = hash_map_header.truncate m\<rparr>]
           @ concat (map chain_of (drop (Suc (hash_fn m k mod num_bucket m)) (bucket m)))"
proof -
  let ?i = "hash_fn m k mod num_bucket m"
  let ?new = "\<lparr>key = k, data = d, hash_map = hash_map_header.truncate m\<rparr>"
  from wf have i: "?i < length (bucket m)"
    by (rule bucket_index_in_range)
  from succ have d: "d \<noteq> None"
    by (rule hash_map_set_Inr_data)
  from succ hash_map_set_present [OF d chain present, of w]
  have "hash_map_set_entry (list_free_node bucket_free old w) m ?i (remove1 old l) k d
      = (w', m', True)"
    by simp
  then have m': "m' = m\<lparr>bucket := (bucket m)[?i := Some (remove1 old l @ [?new])]\<rparr>"
    by (rule hash_map_set_entry_True)
  have old: "old \<in> set l"
    using present by (simp add: find_bucket_entry_loop_Some)
  have "hash_map e = hash_map_header.truncate m" if "e \<in> set (remove1 old l @ [?new])" for e
    using that set_remove1_subset [of old l] wf_chain_back_reference [OF wf i chain] by auto
  with wf have wf': "hash_map_wf m'"
    unfolding m' by (simp add: hash_map_wf_chain_update)
  have "fst (hash_map_foreach m' (recording (\<lambda>e s. (True, s))) ([], c)) = entries m'"
    using hash_map_foreach_recording [OF wf', of "\<lambda>e s. (True, s)" c]
    by (simp add: visit_until_stop_all)
  also have "entries m' = concat (map chain_of (take ?i (bucket m)))
      @ remove1 old l @ [?new] @ concat (map chain_of (drop (Suc ?i) (bucket m)))"
    unfolding m' using i by (simp add: concat_chains_update)
  finally show ?thesis
    by (simp add: m')
qed

theorem set_present_key_moves_to_tail_witness:
  "hash_map_wf example_map \<and>
   bucket example_map ! (hash_fn example_map 1 mod num_bucket example_map)
     = Some [example_entry 1 10, example_entry 3 30] \<and>
   find_bucket_entry_loop [example_entry 1 10, example_entry 3 30] 1 = Some (example_entry 1 10) \<and>
   hash_map_set example_world example_map 1 (Some 11) =
     Inr (example_world\<lparr>alloc_plan := [True, True], free_calls := 2,
            hook_calls := [Key_fn 1, Data_fn (Some 10)]\<rparr>,
          example_map\<lparr>bucket := [None, Some [example_entry 3 30, example_entry 1 11]]\<rparr>,
          True) \<and>
   fst (hash_map_foreach
          (example_map\<lparr>bucket := [None, Some [example_entry 3 30, example_entry 1 11]]\<rparr>)
          (recording (\<lambda>e s. (True, s))) ([], ())) = [example_entry 3 30, example_entry 1 11]"
proof -
  have chain: "bucket example_map ! (hash_fn example_map 1 mod num_bucket example_map)
      = Some [example_entry 1 10, example_entry 3 30]"
    by (simp add: example_defs)
  have present: "find_bucket_entry_loop [example_entry 1 10, example_entry 3 30] 1
      = Some (example_entry 1 10)"
    by (simp add: example_defs default_key_equality_def)
  from set_present_key_moves_to_tail
    [OF example_map_wf chain present example_set_replace, of "()", THEN conjunct2]
  show ?thesis
    using example_map_wf chain present example_set_replace
    by (simp add: example_defs hash_map_header.truncate_def default_key_equality_def)
qed

section \<open>Claims about \<^verbatim>\<open>hash_map_clear\<close> and the counter\<close>

lemma hash_map_clear_loop_result:
  assumes "length (bucket m) = num_bucket m" and "i \<le> num_bucket m"
  shows "snd (hash_map_clear_loop i w m) =
           m\<lparr>bucket := take i (bucket m) @ replicate (num_bucket m - i) None\<rparr>"
  using assms
proof (induction i w m rule: hash_map_clear_loop.induct)
  case (1 i w m)
  show ?case
  proof (cases "i < num_bucket m")
    case False
    with "1.prems" show ?thesis
      by (subst hash_map_clear_loop.simps) simp
  next
    case True
    have rep: "replicate (num_bucket m - i) None = None # replicate (num_bucket m - Suc i) None"
      using True by (simp add: Suc_diff_Suc flip: replicate_Suc)
    show ?thesis
    proof (cases "bucket m ! i")
      case None
      from "1.IH"(1) [OF True None] "1.prems" True
      have "snd (hash_map_clear_loop (i + 1) w m) =
          m\<lparr>bucket := take (i + 1) (bucket m) @ replicate (num_bucket m - (i + 1)) None\<rparr>"
        by simp
      with True None "1.prems" show ?thesis
        by (simp add: hash_map_clear_loop.simps [of i] rep take_Suc_conv_app_nth)
    next
      case (Some l)
      let ?m1 = "m\<lparr>bucket := (bucket m)[i := None]\<rparr>"
      from "1.IH"(2) [OF True Some] "1.prems" True
      have "snd (hash_map_clear_loop (i + 1) (list_free bucket_free w l) ?m1) =
          ?m1\<lparr>bucket := take (i + 1) (bucket ?m1) @ replicate (num_bucket ?m1 - (i + 1)) None\<rparr>"
        by simp
      with True Some "1.prems" show ?thesis
        by (simp add: hash_map_clear_loop.simps [of i] rep take_Suc_conv_app_nth)
    qed
  qed
qed

lemma hash_map_clear_result:
  assumes "hash_map_wf m"
  shows "snd (hash_map_clear w m) = m\<lparr>bucket := replicate (num_bucket m) None\<rparr>"
  using assms hash_map_clear_loop_result [of m 0 w]
  by (simp add: hash_map_clear_def hash_map_wf_def)

lemma hash_map_clear_hash_size:
  assumes "hash_map_wf m"
  shows "hash_map_size (snd (hash_map_clear w m)) = hash_map_size m"
  by (simp add: hash_map_clear_result [OF assms] hash_map_size_def)

lemma hash_map_clear_no_key:
  assumes "hash_map_wf m"
  shows "\<not> hash_map_has_key (snd (hash_map_clear w m)) k"
  using assms
  by (simp add: hash_map_clear_result hash_map_has_key_def find_bucket_entry_def hash_map_wf_def)

lemma example_empty_new:
  "hash_map_new
     \<lparr>alloc_plan = [True, True, True, True, True, True, True, True, True, True, True],
      free_calls = 0, hook_calls = []\<rparr> 2 (Some (\<lambda>k. k)) True True None
     = Inr (\<lparr>alloc_plan = [True, True, True, True, True, True, True, True, True],
             free_calls = 0, hook_calls = []\<rparr>, Some example_empty)"
  by (simp add: example_defs model_defs hash_map_new_def hash_map_new_internal_def
      numeral_2_eq_2)

lemma example_map_reached:
  "hash_map_set
     \<lparr>alloc_plan = [True, True, True, True, True, True, True, True, True],
      free_calls = 0, hook_calls = []\<rparr> example_empty 1 (Some 10)
     = Inr (\<lparr>alloc_plan = [True, True, True, True, True, True], free_calls = 0, hook_calls = []\<rparr>,
            example_empty\<lparr>bucket := [None, Some [example_entry 1 10]], hash_size := 1\<rparr>, True)"
  "hash_map_set
     \<lparr>alloc_plan = [True, True, True, True, True, True], free_calls = 0, hook_calls = []\<rparr>
     (example_empty\<lparr>bucket := [None, Some [example_entry 1 10]], hash_size := 1\<rparr>) 3 (Some 30)
     = Inr (example_world, example_map, True)"
  by (simp_all add: example_defs model_defs)

text \<open>
  Claim C1. \<^verbatim>\<open>hash_map_clear\<close> makes every chain absent, so no key is found afterwards
  (\<open>hash_map_clear_result\<close>, \<open>hash_map_clear_no_key\<close>), but it never writes \<^verbatim>\<open>hash_size\<close>
  (\<open>hash_map_clear_hash_size\<close>): \<^verbatim>\<open>hash_map_size\<close> returns what it returned before the
  call, where the claim, and the comment above the function, say the map is back in the
  state it had after \<^verbatim>\<open>hash_map_new\<close>. The example map has two entries; it is built by
  \<^verbatim>\<open>hash_map_new\<close> and two calls of \<^verbatim>\<open>hash_map_set\<close> (\<open>example_empty_new\<close>,
  \<open>example_map_reached\<close>). After \<^verbatim>\<open>hash_map_clear\<close> both its buckets are \<^verbatim>\<open>NULL\<close>, as in the
  fresh map \<open>example_empty\<close>, and its size is 2 where the fresh map has 0.
\<close>

theorem clear_does_not_reset_size:
  "hash_map_clear example_world example_map =
     (example_world\<lparr>free_calls := 5,
        hook_calls := [Key_fn 1, Data_fn (Some 10), Key_fn 3, Data_fn (Some 30)]\<rparr>,
      example_map\<lparr>bucket := [None, None]\<rparr>) \<and>
   bucket (example_map\<lparr>bucket := [None, None]\<rparr>) = bucket example_empty \<and>
   hash_map_size (example_map\<lparr>bucket := [None, None]\<rparr>) = 2 \<and>
   hash_map_size example_empty = 0"
  by (simp add: example_defs model_defs)

text \<open>
  Claim C2. The bucket count of a well-formed map is not zero, but the counter does not
  always equal the number of entries in the chains. A run from \<^verbatim>\<open>hash_map_new\<close>: a map
  with two buckets is created, one entry is set, the map is cleared. Before the call of
  \<^verbatim>\<open>hash_map_clear\<close> the counter is 1 and the map has 1 entry; after it the counter is
  still 1 and the map has no entry.
\<close>

theorem clear_breaks_size_invariant:
  "hash_map_new \<lparr>alloc_plan = [True, True, True, True, True], free_calls = 0, hook_calls = []\<rparr>
     2 (Some (\<lambda>k. k)) True True None
     = Inr (\<lparr>alloc_plan = [True, True, True], free_calls = 0, hook_calls = []\<rparr>,
            Some example_empty) \<and>
   hash_map_set \<lparr>alloc_plan = [True, True, True], free_calls = 0, hook_calls = []\<rparr>
     example_empty 1 (Some 10)
     = Inr (\<lparr>alloc_plan = [], free_calls = 0, hook_calls = []\<rparr>,
            example_empty\<lparr>bucket := [None, Some [example_entry 1 10]], hash_size := 1\<rparr>,
            True) \<and>
   unat (hash_size (example_empty\<lparr>bucket := [None, Some [example_entry 1 10]], hash_size := 1\<rparr>))
     = length (entries (example_empty\<lparr>bucket := [None, Some [example_entry 1 10]], hash_size := 1\<rparr>)) \<and>
   hash_map_clear \<lparr>alloc_plan = [], free_calls = 0, hook_calls = []\<rparr>
     (example_empty\<lparr>bucket := [None, Some [example_entry 1 10]], hash_size := 1\<rparr>)
     = (\<lparr>alloc_plan = [], free_calls = 3, hook_calls = [Key_fn 1, Data_fn (Some 10)]\<rparr>,
        example_empty\<lparr>hash_size := 1\<rparr>) \<and>
   unat (hash_size (example_empty\<lparr>hash_size := 1\<rparr>)) = 1 \<and>
   length (entries (example_empty\<lparr>hash_size := 1\<rparr>)) = 0 \<and>
   0 < num_bucket (example_empty\<lparr>hash_size := 1\<rparr>)"
  by (simp add: example_defs model_defs hash_map_new_def hash_map_new_internal_def
      numeral_2_eq_2)

section \<open>What the operations do to a map\<close>

lemma chain_without_None:
  "bucket m ! (hash_fn m k mod num_bucket m) = None \<Longrightarrow> chain_without m k = []"
  by (simp add: chain_without_def)

lemma chain_without_absent:
  "bucket m ! (hash_fn m k mod num_bucket m) = Some l \<Longrightarrow>
     find_bucket_entry_loop l k = None \<Longrightarrow> chain_without m k = l"
  by (simp add: chain_without_def)

lemma chain_without_present:
  "bucket m ! (hash_fn m k mod num_bucket m) = Some l \<Longrightarrow>
     find_bucket_entry_loop l k = Some e \<Longrightarrow> chain_without m k = remove1 e l"
  by (simp add: chain_without_def)

lemma hash_map_set_entry_result:
  assumes "hash_map_set_entry w m i l k d = (w', m', rc)"
  shows "m' = m\<lparr>bucket := (bucket m)[i := Some
           (if rc then l @ [\<lparr>key = k, data = d, hash_map = hash_map_header.truncate m\<rparr>] else l)]\<rparr>"
  using assms hash_map_set_entry_True(1) [of w m i l k d w' m']
    hash_map_set_entry_False(1) [of w m i l k d w' m']
  by (cases rc) simp_all

lemma hash_map_set_result:
  assumes wf: "hash_map_wf m" and run: "hash_map_set w m k d = Inr (w', m', rc)"
  shows "(\<not> rc \<and> m' = m) \<or>
         m' = m\<lparr>bucket := (bucket m)[hash_fn m k mod num_bucket m := Some
                  (if rc
                   then chain_without m k
                     @ [\<lparr>key = k, data = d, hash_map = hash_map_header.truncate m\<rparr>]
                   else chain_without m k)],
                hash_size := hash_size m'\<rparr>"
proof -
  let ?i = "hash_fn m k mod num_bucket m"
  from wf have i: "?i < length (bucket m)"
    by (rule bucket_index_in_range)
  from run have d: "d \<noteq> None"
    by (rule hash_map_set_Inr_data)
  show ?thesis
  proof (cases "bucket m ! ?i")
    case None
    note cw = chain_without_None [OF None]
    show ?thesis
    proof (cases "fst (allocator_alloc w)")
      case False
      with run hash_map_set_no_chain [OF d i None, of w] show ?thesis
        by simp
    next
      case True
      let ?m1 = "m\<lparr>bucket := (bucket m)[?i := Some []], hash_size := hash_size m + 1\<rparr>"
      from True run hash_map_set_no_chain [OF d i None, of w]
      have "hash_map_set_entry (snd (allocator_alloc w)) ?m1 ?i [] k d = (w', m', rc)"
        by simp
      from hash_map_set_entry_result [OF this] show ?thesis
        by (cases rc) (simp_all add: cw)
    qed
  next
    case (Some l)
    show ?thesis
    proof (cases "find_bucket_entry_loop l k")
      case None
      note cw = chain_without_absent [OF Some None]
      from run hash_map_set_absent [OF d Some None, of w]
      have "hash_map_set_entry w (m\<lparr>hash_size := hash_size m + 1\<rparr>) ?i l k d = (w', m', rc)"
        by simp
      from hash_map_set_entry_result [OF this] show ?thesis
        by (cases rc) (simp_all add: cw)
    next
      case (Some e)
      note cw = chain_without_present [OF \<open>bucket m ! ?i = Some l\<close> Some]
      from run hash_map_set_present [OF d \<open>bucket m ! ?i = Some l\<close> Some, of w]
      have "hash_map_set_entry (list_free_node bucket_free e w) m ?i (remove1 e l) k d
          = (w', m', rc)"
        by simp
      from hash_map_set_entry_result [OF this] show ?thesis
        by (cases rc) (simp_all add: cw)
    qed
  qed
qed

lemma hash_map_erase_result:
  assumes "hash_map_erase w m k = (w', m', rc)"
  shows "m' = m \<or>
         m' = m\<lparr>bucket := (bucket m)[hash_fn m k mod num_bucket m := Some (chain_without m k)],
                hash_size := hash_size m'\<rparr>"
proof -
  let ?i = "hash_fn m k mod num_bucket m"
  show ?thesis
  proof (cases "find_bucket_entry (bucket m ! ?i) k")
    case None
    with assms show ?thesis
      by (simp add: hash_map_erase_def)
  next
    case (Some e)
    then obtain l where l: "bucket m ! ?i = Some l" and f: "find_bucket_entry_loop l k = Some e"
      by (rule present_chain)
    from f have "e \<in> set l"
      by (simp add: find_bucket_entry_loop_Some)
    with assms Some l
    have "m' = m\<lparr>bucket := (bucket m)[?i := Some (remove1 e l)], hash_size := hash_size m - 1\<rparr>"
      by (auto simp: hash_map_erase_def list_remove_def)
    then show ?thesis
      using chain_without_present [OF l f] by simp
  qed
qed

section \<open>The invariants are kept\<close>

lemma chain_without_subset:
  "set (chain_without m k) \<subseteq> set (chain_of (bucket m ! (hash_fn m k mod num_bucket m)))"
  using set_remove1_subset
  by (fastforce simp: chain_without_def Let_def split: option.splits)

lemma chain_of_subset_entries:
  "i < length (bucket m) \<Longrightarrow> set (chain_of (bucket m ! i)) \<subseteq> set (entries m)"
  using chain_subset_entries [of i m] by (cases "bucket m ! i") simp_all

lemma chain_without_subset_entries:
  assumes "hash_map_wf m"
  shows "set (chain_without m k) \<subseteq> set (entries m)"
  using chain_without_subset [of m k]
    chain_of_subset_entries [OF bucket_index_in_range [OF assms], of k]
  by blast

lemma hash_map_wf_update:
  assumes "hash_map_wf m" and "\<forall>e \<in> set l. hash_map e = hash_map_header.truncate m"
  shows "hash_map_wf (m\<lparr>bucket := (bucket m)[i := Some l], hash_size := n\<rparr>)"
  using hash_map_wf_chain_update [OF assms, of i]
  by (simp add: hash_map_wf_def)

lemma data_non_null_update:
  assumes "data_non_null m" and "\<forall>e \<in> set l. data e \<noteq> None"
  shows "data_non_null (m\<lparr>bucket := (bucket m)[i := Some l], hash_size := n\<rparr>)"
  using assms set_entries_chain_update [of m i "Some l"]
  by (auto simp: data_non_null_def)

lemma keys_unique_update:
  assumes "keys_unique m"
    and "\<forall>q. length (filter (\<lambda>e. keys_are_equal m (key e) q) l) \<le> 1"
  shows "keys_unique (m\<lparr>bucket := (bucket m)[i := Some l], hash_size := n\<rparr>)"
proof -
  have "b = Some l \<or> b \<in> set (bucket m)" if "b \<in> set ((bucket m)[i := Some l])" for b
    using that set_update_subset_insert [of "bucket m" i "Some l"] by auto
  with assms show ?thesis
    by (fastforce simp: keys_unique_def)
qed

lemma keys_unique_chain_of:
  assumes "keys_unique m" and "i < length (bucket m)"
  shows "length (filter (\<lambda>e. keys_are_equal m (key e) q) (chain_of (bucket m ! i))) \<le> 1"
  using assms by (simp add: keys_unique_def)

lemma filter_chain_without_le:
  "length (filter P (chain_without m k))
     \<le> length (filter P (chain_of (bucket m ! (hash_fn m k mod num_bucket m))))"
proof (cases "find_bucket_entry_loop (chain_of (bucket m ! (hash_fn m k mod num_bucket m))) k")
  case None
  then show ?thesis
    by (simp add: chain_without_def)
next
  case (Some e)
  have "length (remove1 e xs) \<le> length xs" for xs :: "('a, 'b) hash_map_entry_t list"
    by (simp add: length_remove1)
  with Some show ?thesis
    by (simp add: chain_without_def filter_remove1)
qed

lemma chain_without_no_match:
  assumes wf: "hash_map_wf m" and uniq: "keys_unique m" and e: "e \<in> set (chain_without m k)"
  shows "\<not> keys_are_equal m (key e) k"
proof -
  let ?i = "hash_fn m k mod num_bucket m"
  from wf have i: "?i < length (bucket m)"
    by (rule bucket_index_in_range)
  show ?thesis
  proof (cases "bucket m ! ?i")
    case None
    with e show ?thesis
      by (simp add: chain_without_None)
  next
    case (Some l)
    have none: "find_bucket_entry_loop (chain_without m k) k = None"
    proof (cases "find_bucket_entry_loop l k")
      case None
      with Some show ?thesis
        by (simp add: chain_without_absent)
    next
      case (Some old)
      with first_match_removed [OF wf uniq i \<open>bucket m ! ?i = Some l\<close> Some]
      show ?thesis
        by (simp add: chain_without_present [OF \<open>bucket m ! ?i = Some l\<close> Some])
    qed
    from e chain_without_subset_entries [OF wf, of k]
    have "hash_map e = hash_map_header.truncate m"
      using wf by (auto simp: hash_map_wf_def)
    with none e show ?thesis
      by (auto simp: find_bucket_entry_loop_None)
  qed
qed

lemma hash_map_set_wf:
  assumes "hash_map_wf m" and "hash_map_set w m k d = Inr (w', m', rc)"
  shows "hash_map_wf m'"
proof -
  have "\<forall>e \<in> set (chain_without m k). hash_map e = hash_map_header.truncate m"
    using chain_without_subset_entries [OF assms(1), of k] assms(1)
    by (auto simp: hash_map_wf_def)
  then have "\<forall>e \<in> set (if rc then chain_without m k
        @ [\<lparr>key = k, data = d, hash_map = hash_map_header.truncate m\<rparr>] else chain_without m k).
      hash_map e = hash_map_header.truncate m"
    by simp
  from hash_map_wf_update [OF assms(1) this] hash_map_set_result [OF assms] assms(1)
  show ?thesis
    by metis
qed

lemma hash_map_erase_wf:
  assumes "hash_map_wf m" and "hash_map_erase w m k = (w', m', rc)"
  shows "hash_map_wf m'"
proof -
  have "\<forall>e \<in> set (chain_without m k). hash_map e = hash_map_header.truncate m"
    using chain_without_subset_entries [OF assms(1), of k] assms(1)
    by (auto simp: hash_map_wf_def)
  from hash_map_wf_update [OF assms(1) this] hash_map_erase_result [OF assms(2)] assms(1)
  show ?thesis
    by metis
qed

lemma hash_map_set_header:
  assumes "hash_map_wf m" and "hash_map_set w m k d = Inr (w', m', rc)"
  shows "hash_map_header.truncate m' = hash_map_header.truncate m"
proof -
  from hash_map_set_result [OF assms] obtain b n where "m' = m \<or> m' = m\<lparr>bucket := b, hash_size := n\<rparr>"
    by blast
  then show ?thesis
    by auto
qed

lemma hash_map_erase_header:
  assumes "hash_map_erase w m k = (w', m', rc)"
  shows "hash_map_header.truncate m' = hash_map_header.truncate m"
proof -
  from hash_map_erase_result [OF assms] obtain b n where "m' = m \<or> m' = m\<lparr>bucket := b, hash_size := n\<rparr>"
    by blast
  then show ?thesis
    by auto
qed

lemma hash_map_set_data_non_null:
  assumes "hash_map_wf m" and "data_non_null m" and "hash_map_set w m k d = Inr (w', m', rc)"
  shows "data_non_null m'"
proof -
  from assms(3) have "d \<noteq> None"
    by (rule hash_map_set_Inr_data)
  moreover have "\<forall>e \<in> set (chain_without m k). data e \<noteq> None"
    using chain_without_subset_entries [OF assms(1), of k] assms(2)
    by (auto simp: data_non_null_def)
  ultimately have "\<forall>e \<in> set (if rc then chain_without m k
        @ [\<lparr>key = k, data = d, hash_map = hash_map_header.truncate m\<rparr>] else chain_without m k).
      data e \<noteq> None"
    by simp
  from data_non_null_update [OF assms(2) this] hash_map_set_result [OF assms(1,3)] assms(2)
  show ?thesis
    by metis
qed

lemma hash_map_erase_data_non_null:
  assumes "hash_map_wf m" and "data_non_null m" and "hash_map_erase w m k = (w', m', rc)"
  shows "data_non_null m'"
proof -
  have "\<forall>e \<in> set (chain_without m k). data e \<noteq> None"
    using chain_without_subset_entries [OF assms(1), of k] assms(2)
    by (auto simp: data_non_null_def)
  from data_non_null_update [OF assms(2) this] hash_map_erase_result [OF assms(3)] assms(2)
  show ?thesis
    by metis
qed

lemma hash_map_erase_keys_unique:
  assumes "hash_map_wf m" and "keys_unique m" and "hash_map_erase w m k = (w', m', rc)"
  shows "keys_unique m'"
proof -
  have "length (filter (\<lambda>e. keys_are_equal m (key e) q) (chain_without m k)) \<le> 1" for q
    using filter_chain_without_le [of "\<lambda>e. keys_are_equal m (key e) q" m k]
      keys_unique_chain_of [OF assms(2) bucket_index_in_range [OF assms(1), of k], of q]
    by simp
  then have "\<forall>q. length (filter (\<lambda>e. keys_are_equal m (key e) q) (chain_without m k)) \<le> 1"
    by blast
  from keys_unique_update [OF assms(2) this] hash_map_erase_result [OF assms(3)] assms(2)
  show ?thesis
    by metis
qed

lemma hash_map_set_keys_unique:
  assumes wf: "hash_map_wf m" and uniq: "keys_unique m" and eq: "equivp (keys_are_equal m)"
    and run: "hash_map_set w m k d = Inr (w', m', rc)"
  shows "keys_unique m'"
proof -
  let ?new = "\<lparr>key = k, data = d, hash_map = hash_map_header.truncate m\<rparr>"
  have cw: "length (filter (\<lambda>e. keys_are_equal m (key e) q) (chain_without m k)) \<le> 1" for q
    using filter_chain_without_le [of "\<lambda>e. keys_are_equal m (key e) q" m k]
      keys_unique_chain_of [OF uniq bucket_index_in_range [OF wf, of k], of q]
    by simp
  have "length (filter (\<lambda>e. keys_are_equal m (key e) q) (chain_without m k @ [?new])) \<le> 1" for q
  proof (cases "keys_are_equal m k q")
    case False
    with cw [of q] show ?thesis
      by simp
  next
    case True
    have "\<not> keys_are_equal m (key e) q" if "e \<in> set (chain_without m k)" for e
    proof
      assume "keys_are_equal m (key e) q"
      with True eq have "keys_are_equal m (key e) k"
        by (meson equivp_symp equivp_transp)
      with chain_without_no_match [OF wf uniq that] show False
        by simp
    qed
    then have "filter (\<lambda>e. keys_are_equal m (key e) q) (chain_without m k) = []"
      by (simp add: filter_empty_conv)
    then show ?thesis
      by simp
  qed
  with cw have "\<forall>q. length (filter (\<lambda>e. keys_are_equal m (key e) q)
      (if rc then chain_without m k @ [?new] else chain_without m k)) \<le> 1"
    by simp
  from keys_unique_update [OF uniq this] hash_map_set_result [OF wf run] uniq
  show ?thesis
    by metis
qed

lemma hash_map_clear_invariants:
  assumes "hash_map_wf m"
  shows "hash_map_wf (snd (hash_map_clear w m))"
    and "keys_unique (snd (hash_map_clear w m))"
    and "data_non_null (snd (hash_map_clear w m))"
  using assms
  by (simp_all add: hash_map_clear_result hash_map_wf_def keys_unique_def data_non_null_def)

lemma hash_map_new_invariants:
  assumes "hash_map_new w nb hf kf df equality_fn = Inr (w', Some m)"
  shows "hash_map_wf m" and "keys_unique m" and "data_non_null m"
    and "hash_map_size m = 0" and "entries m = []"
    and "keys_are_equal m = (case equality_fn of None \<Rightarrow> (=) | Some f \<Rightarrow> f)"
proof -
  from assms obtain h where m: "m = \<lparr>num_bucket = nb, hash_fn = h, key_fn = kf, data_fn = df,
      keys_are_equal = (case equality_fn of None \<Rightarrow> default_key_equality | Some f \<Rightarrow> f),
      bucket = replicate nb None, hash_size = 0\<rparr>" and nb: "0 < nb"
    by (auto simp: hash_map_new_def hash_map_new_internal_def Let_def
        split: option.splits if_splits prod.splits)
  have "default_key_equality = ((=) :: 'a \<Rightarrow> 'a \<Rightarrow> bool)"
    by (intro ext) (simp add: default_key_equality_def)
  then show "keys_are_equal m = (case equality_fn of None \<Rightarrow> (=) | Some f \<Rightarrow> f)"
    by (simp add: m split: option.splits)
  show "hash_map_wf m" "keys_unique m" "data_non_null m" "hash_map_size m = 0" "entries m = []"
    using nb
    by (simp_all add: m hash_map_wf_def keys_unique_def data_non_null_def hash_map_size_def
        entries_def)
qed

text \<open>
  So the hypotheses of the claims below and above hold in every state that a map can
  reach: \<^verbatim>\<open>hash_map_new\<close> establishes them, \<^verbatim>\<open>hash_map_clear\<close> keeps them, and so does every
  sequence of calls of \<^verbatim>\<open>hash_map_set\<close> and \<^verbatim>\<open>hash_map_erase\<close>, the uniqueness of keys for
  an equality predicate that is an equivalence relation (the default one is).
\<close>

lemma apply_ops_invariants:
  assumes "hash_map_wf m" and "data_non_null m" and "apply_ops w m ops = Inr (w', m')"
  shows "hash_map_wf m' \<and> data_non_null m' \<and>
         hash_map_header.truncate m' = hash_map_header.truncate m \<and>
         (equivp (keys_are_equal m) \<longrightarrow> keys_unique m \<longrightarrow> keys_unique m')"
  using assms
proof (induction ops arbitrary: w m)
  case Nil
  then show ?case by simp
next
  case (Cons op ops)
  show ?case
  proof (cases op)
    case (Op_set k d)
    with Cons.prems(3) obtain w1 m1 rc where step: "hash_map_set w m k d = Inr (w1, m1, rc)"
      and rest: "apply_ops w1 m1 ops = Inr (w', m')"
      by (auto split: sum.splits)
    note header = hash_map_set_header [OF Cons.prems(1) step]
    from Cons.IH [OF hash_map_set_wf [OF Cons.prems(1) step]
        hash_map_set_data_non_null [OF Cons.prems(1,2) step] rest]
      hash_map_set_keys_unique [OF Cons.prems(1) _ _ step]
    show ?thesis
      by (simp add: header header_fields(5) [OF header])
  next
    case (Op_erase k)
    with Cons.prems(3) obtain w1 m1 rc where step: "hash_map_erase w m k = (w1, m1, rc)"
      and rest: "apply_ops w1 m1 ops = Inr (w', m')"
      by (auto split: prod.splits)
    note header = hash_map_erase_header [OF step]
    from Cons.IH [OF hash_map_erase_wf [OF Cons.prems(1) step]
        hash_map_erase_data_non_null [OF Cons.prems(1,2) step] rest]
      hash_map_erase_keys_unique [OF Cons.prems(1) _ step]
    show ?thesis
      by (simp add: header header_fields(5) [OF header])
  qed
qed

lemma default_key_equality_equivp: "equivp (default_key_equality :: 'k \<Rightarrow> 'k \<Rightarrow> bool)"
proof -
  have "default_key_equality = ((=) :: 'k \<Rightarrow> 'k \<Rightarrow> bool)"
    by (intro ext) (simp add: default_key_equality_def)
  then show ?thesis
    by (simp add: identity_equivp)
qed

section \<open>Round trip\<close>

lemma chain_without_find_None:
  assumes wf: "hash_map_wf m" and uniq: "keys_unique m"
  shows "find_bucket_entry_loop (chain_without m k) k = None"
proof -
  have "\<not> keys_are_equal (hash_map e) (key e) k" if "e \<in> set (chain_without m k)" for e
  proof -
    from that chain_without_subset_entries [OF wf, of k]
    have "hash_map e = hash_map_header.truncate m"
      using wf by (auto simp: hash_map_wf_def)
    with chain_without_no_match [OF wf uniq that] show ?thesis
      by simp
  qed
  then show ?thesis
    by (simp add: find_bucket_entry_loop_None)
qed

lemma find_kept_in_chain_without:
  assumes wf: "hash_map_wf m"
    and same: "hash_fn m k' mod num_bucket m = hash_fn m k mod num_bucket m"
    and stored: "find_bucket_entry (bucket m ! (hash_fn m k mod num_bucket m)) k = Some e"
    and other: "\<not> keys_are_equal m (key e) k'"
  shows "find_bucket_entry_loop (chain_without m k') k = Some e"
proof -
  let ?i = "hash_fn m k mod num_bucket m"
  from wf have i: "?i < length (bucket m)"
    by (rule bucket_index_in_range)
  from stored obtain l where l: "bucket m ! ?i = Some l"
    and f: "find_bucket_entry_loop l k = Some e"
    by (rule present_chain)
  from l same have l': "bucket m ! (hash_fn m k' mod num_bucket m) = Some l"
    by simp
  show ?thesis
  proof (cases "find_bucket_entry_loop l k'")
    case None
    with f show ?thesis
      by (simp add: chain_without_absent [OF l'])
  next
    case (Some e')
    then have "e' \<in> set l" and "keys_are_equal (hash_map e') (key e') k'"
      by (simp_all add: find_bucket_entry_loop_Some)
    then have "keys_are_equal m (key e') k'"
      using wf_chain_back_reference [OF wf i l] by simp
    with other have "e' \<noteq> e"
      by auto
    with f show ?thesis
      by (simp add: chain_without_present [OF l' Some] find_bucket_entry_loop_remove1_other)
  qed
qed

lemma find_kept_by_update:
  assumes wf: "hash_map_wf m"
    and stored: "find_bucket_entry (bucket m ! (hash_fn m k mod num_bucket m)) k = Some e"
    and other: "\<not> keys_are_equal m (key e) k'"
    and l': "l' = chain_without m k' \<or> l' = chain_without m k' @ ys"
  shows "find_bucket_entry
           ((bucket m)[hash_fn m k' mod num_bucket m := Some l'] ! (hash_fn m k mod num_bucket m)) k
         = Some e"
proof (cases "hash_fn m k' mod num_bucket m = hash_fn m k mod num_bucket m")
  case False
  with stored show ?thesis
    by simp
next
  case True
  from wf have "hash_fn m k mod num_bucket m < length (bucket m)"
    by (rule bucket_index_in_range)
  moreover have "find_bucket_entry_loop l' k = Some e"
    using l' find_kept_in_chain_without [OF wf True stored other]
    by (auto simp: find_bucket_entry_loop_append)
  ultimately show ?thesis
    using True by (simp add: find_bucket_entry_def)
qed

lemma hash_map_set_bucket:
  assumes "hash_map_wf m" and "hash_map_set w m k d = Inr (w', m', rc)"
  shows "(\<not> rc \<and> bucket m' = bucket m) \<or>
         bucket m' = (bucket m)[hash_fn m k mod num_bucket m := Some
           (if rc
            then chain_without m k @ [\<lparr>key = k, data = d, hash_map = hash_map_header.truncate m\<rparr>]
            else chain_without m k)]"
  using hash_map_set_result [OF assms]
proof (elim disjE)
  assume "\<not> rc \<and> m' = m"
  then show ?thesis by simp
next
  assume "m' = m\<lparr>bucket := (bucket m)[hash_fn m k mod num_bucket m := Some
      (if rc
       then chain_without m k @ [\<lparr>key = k, data = d, hash_map = hash_map_header.truncate m\<rparr>]
       else chain_without m k)], hash_size := hash_size m'\<rparr>"
  from arg_cong [OF this, of bucket] show ?thesis
    by simp
qed

lemma hash_map_erase_bucket:
  assumes "hash_map_erase w m k = (w', m', rc)"
  shows "bucket m' = bucket m \<or>
         bucket m' = (bucket m)[hash_fn m k mod num_bucket m := Some (chain_without m k)]"
  using hash_map_erase_result [OF assms]
proof (elim disjE)
  assume "m' = m"
  then show ?thesis by simp
next
  assume "m' = m\<lparr>bucket := (bucket m)[hash_fn m k mod num_bucket m := Some (chain_without m k)],
      hash_size := hash_size m'\<rparr>"
  from arg_cong [OF this, of bucket] show ?thesis
    by simp
qed

lemma hash_map_set_keeps_other_key:
  assumes wf: "hash_map_wf m"
    and stored: "find_bucket_entry (bucket m ! (hash_fn m k mod num_bucket m)) k = Some e"
    and other: "\<not> keys_are_equal m (key e) k'"
    and run: "hash_map_set w m k' d' = Inr (w', m', rc)"
  shows "find_bucket_entry (bucket m' ! (hash_fn m' k mod num_bucket m')) k = Some e"
proof -
  let ?l' = "if rc then chain_without m k'
      @ [\<lparr>key = k', data = d', hash_map = hash_map_header.truncate m\<rparr>] else chain_without m k'"
  note fields = header_fields [OF hash_map_set_header [OF wf run]]
  have "?l' = chain_without m k' \<or> ?l' = chain_without m k'
      @ [\<lparr>key = k', data = d', hash_map = hash_map_header.truncate m\<rparr>]"
    by simp
  from find_kept_by_update [OF wf stored other this] hash_map_set_bucket [OF wf run] stored
  show ?thesis
    unfolding fields by auto
qed

lemma hash_map_erase_keeps_other_key:
  assumes wf: "hash_map_wf m"
    and stored: "find_bucket_entry (bucket m ! (hash_fn m k mod num_bucket m)) k = Some e"
    and other: "\<not> keys_are_equal m (key e) k'"
    and run: "hash_map_erase w m k' = (w', m', rc)"
  shows "find_bucket_entry (bucket m' ! (hash_fn m' k mod num_bucket m')) k = Some e"
proof -
  note fields = header_fields [OF hash_map_erase_header [OF run]]
  from find_kept_by_update [OF wf stored other, of "chain_without m k'" "[]"]
    hash_map_erase_bucket [OF run] stored
  show ?thesis
    unfolding fields by auto
qed

lemma apply_ops_keeps_other_key:
  assumes "hash_map_wf m"
    and "find_bucket_entry (bucket m ! (hash_fn m k mod num_bucket m)) k = Some e"
    and "\<forall>op \<in> set ops. \<not> keys_are_equal m (key e) (op_key op)"
    and "apply_ops w m ops = Inr (w', m')"
  shows "find_bucket_entry (bucket m' ! (hash_fn m' k mod num_bucket m')) k = Some e"
  using assms
proof (induction ops arbitrary: w m)
  case Nil
  then show ?case by simp
next
  case (Cons op ops)
  show ?case
  proof (cases op)
    case (Op_set k' d')
    with Cons.prems(4) obtain w1 m1 rc where step: "hash_map_set w m k' d' = Inr (w1, m1, rc)"
      and rest: "apply_ops w1 m1 ops = Inr (w', m')"
      by (auto split: sum.splits)
    from Cons.prems(3) Op_set have other: "\<not> keys_are_equal m (key e) k'"
      by simp
    note fields = header_fields [OF hash_map_set_header [OF Cons.prems(1) step]]
    from Cons.prems(3) have "\<forall>op \<in> set ops. \<not> keys_are_equal m1 (key e) (op_key op)"
      by (simp add: fields)
    from Cons.IH [OF hash_map_set_wf [OF Cons.prems(1) step]
        hash_map_set_keeps_other_key [OF Cons.prems(1,2) other step] this rest]
    show ?thesis .
  next
    case (Op_erase k')
    with Cons.prems(4) obtain w1 m1 rc where step: "hash_map_erase w m k' = (w1, m1, rc)"
      and rest: "apply_ops w1 m1 ops = Inr (w', m')"
      by (auto split: prod.splits)
    from Cons.prems(3) Op_erase have other: "\<not> keys_are_equal m (key e) k'"
      by simp
    note fields = header_fields [OF hash_map_erase_header [OF step]]
    from Cons.prems(3) have "\<forall>op \<in> set ops. \<not> keys_are_equal m1 (key e) (op_key op)"
      by (simp add: fields)
    from Cons.IH [OF hash_map_erase_wf [OF Cons.prems(1) step]
        hash_map_erase_keeps_other_key [OF Cons.prems(1,2) other step] this rest]
    show ?thesis .
  qed
qed

text \<open>
  Claim C7. After a successful \<^verbatim>\<open>hash_map_set\<close> of a key with a data reference, and
  after any further calls of \<^verbatim>\<open>hash_map_set\<close> and \<^verbatim>\<open>hash_map_erase\<close> (successful or not)
  on keys that the stored key is not equal to under the equality predicate (the entry is
  not erased and not replaced, and the map is not cleared), \<^verbatim>\<open>hash_map_get\<close> on the key
  returns that same data reference. The map is well-formed with unique keys when the
  key is set, and the equality predicate holds between the key and itself.
\<close>

theorem get_returns_what_set_stored:
  assumes wf: "hash_map_wf m" and uniq: "keys_unique m" and refl: "keys_are_equal m k k"
    and stored: "hash_map_set w m k d = Inr (w1, m1, True)"
    and others: "\<forall>op \<in> set ops. \<not> keys_are_equal m k (op_key op)"
    and run: "apply_ops w1 m1 ops = Inr (w2, m2)"
  shows "hash_map_get m2 k = d"
proof -
  let ?i = "hash_fn m k mod num_bucket m"
  let ?new = "\<lparr>key = k, data = d, hash_map = hash_map_header.truncate m\<rparr>"
  from wf have i: "?i < length (bucket m)"
    by (rule bucket_index_in_range)
  note fields = header_fields [OF hash_map_set_header [OF wf stored]]
  from hash_map_set_bucket [OF wf stored]
  have "bucket m1 = (bucket m)[?i := Some (chain_without m k @ [?new])]"
    by simp
  moreover have "find_bucket_entry_loop (chain_without m k @ [?new]) k = Some ?new"
    using chain_without_find_None [OF wf uniq, of k] refl
    by (simp add: find_bucket_entry_loop_append)
  ultimately have found: "find_bucket_entry (bucket m1 ! (hash_fn m1 k mod num_bucket m1)) k
      = Some ?new"
    using i by (simp add: fields find_bucket_entry_def)
  from others have "\<forall>op \<in> set ops. \<not> keys_are_equal m1 (key ?new) (op_key op)"
    by (simp add: fields)
  from apply_ops_keeps_other_key [OF hash_map_set_wf [OF wf stored] found this run]
  show ?thesis
    by (simp add: hash_map_get_def)
qed


lemma example_set_new_key:
  "hash_map_set example_world example_map 5 (Some 50) =
     Inr (example_world\<lparr>alloc_plan := [True, True]\<rparr>,
          example_map\<lparr>bucket := [None, Some [example_entry 1 10, example_entry 3 30,
                                                example_entry 5 50]],
                      hash_size := 3\<rparr>,
          True)"
  by (simp add: example_defs model_defs)

lemma example_apply_ops:
  "apply_ops (example_world\<lparr>alloc_plan := [True, True]\<rparr>)
     (example_map\<lparr>bucket := [None, Some [example_entry 1 10, example_entry 3 30,
                                           example_entry 5 50]],
                 hash_size := 3\<rparr>)
     [Op_set 1 (Some 11), Op_erase 3, Op_set 7 (Some 70)] =
   Inr (example_world\<lparr>alloc_plan := [], free_calls := 4,
          hook_calls := [Key_fn 1, Data_fn (Some 10), Key_fn 3, Data_fn (Some 30)]\<rparr>,
        example_map\<lparr>bucket := [None, Some [example_entry 5 50, example_entry 1 11]],
                    hash_size := 3\<rparr>)"
  by (simp add: example_defs model_defs)

theorem get_returns_what_set_stored_witness:
  "hash_map_wf example_map \<and> keys_unique example_map \<and> keys_are_equal example_map 5 5 \<and>
   hash_map_set example_world example_map 5 (Some 50) =
     Inr (example_world\<lparr>alloc_plan := [True, True]\<rparr>,
          example_map\<lparr>bucket := [None, Some [example_entry 1 10, example_entry 3 30,
                                                example_entry 5 50]],
                      hash_size := 3\<rparr>,
          True) \<and>
   list_all (\<lambda>op. \<not> keys_are_equal example_map 5 (op_key op))
     [Op_set 1 (Some 11), Op_erase 3, Op_set 7 (Some 70) :: (nat, nat) hash_map_op] \<and>
   hash_map_get
     (example_map\<lparr>bucket := [None, Some [example_entry 5 50, example_entry 1 11]],
                 hash_size := 3\<rparr>) 5 = Some 50"
proof -
  have refl: "keys_are_equal example_map 5 5"
    by (simp add: example_defs default_key_equality_def)
  have others: "\<forall>op \<in> set [Op_set 1 (Some 11), Op_erase 3, Op_set 7 (Some 70) :: (nat, nat) hash_map_op].
      \<not> keys_are_equal example_map 5 (op_key op)"
    by (simp add: example_defs default_key_equality_def)
  from get_returns_what_set_stored [OF example_map_wf example_map_keys_unique refl
      example_set_new_key others example_apply_ops]
  show ?thesis
    using example_map_wf example_map_keys_unique refl example_set_new_key others
    by simp
qed

end
